theory Spec2Isabelle
  imports Main "HOL-Library.Word"
begin

unbundle bit_operations_syntax

section \<open>The debugWIRE port of the Little-Wire adapter (DwPort.c)\<close>

text \<open>
  A shallow embedding of \<^verbatim>\<open>src/software/examples/debugWIRE/src/dwire/DwPort.c\<close>.
  The C globals become fields of three nested records, one per layer of the file:
  the USB link to the adapter (\<^verbatim>\<open>Port\<close>, \<^verbatim>\<open>cyclesPerPulse\<close>), the outbound
  buffer (\<^verbatim>\<open>OutBufBytes\<close>, \<^verbatim>\<open>OutBufLength\<close>) and the debugger session
  (\<^verbatim>\<open>R\<close>, \<^verbatim>\<open>PC\<close>, \<^verbatim>\<open>BP\<close>, \<^verbatim>\<open>TimerEnable\<close>). A C function that only
  touches the globals of a lower layer takes and returns the record of that layer.
  C \<^verbatim>\<open>int\<close> is modelled by \<open>int\<close> (no value in this file comes near 32 bits),
  \<^verbatim>\<open>u8\<close>, \<^verbatim>\<open>u16\<close> and \<^verbatim>\<open>uint32_t\<close> by words. Wall-clock delays are left out.
\<close>

type_synonym u8 = "8 word"
type_synonym u16 = "16 word"
type_synonym u32 = "32 word"

subsection \<open>What the outside world sees\<close>

text \<open>Calls of the console writers \<^verbatim>\<open>Ws\<close>, \<^verbatim>\<open>Wd\<close>, \<^verbatim>\<open>Wsl\<close>, \<^verbatim>\<open>Wc\<close>, \<^verbatim>\<open>Wl\<close>
  and \<^verbatim>\<open>Flush\<close>, which DwPort.c uses and does not define.\<close>

datatype wr = Ws string | Wd int int | Wsl string | Wc char | Wl | ConsoleFlush

text \<open>
  The trace of a run, oldest event first. \<open>ControlOut v bytes\<close> and \<open>ControlIn n\<close> are
  the calls of \<^verbatim>\<open>usb_control_msg\<close> (request 60, index 0) with direction OUT, value
  \<open>v\<close> and payload \<open>bytes\<close>, or direction IN, value 0 and a buffer of \<open>n\<close> bytes.
  \<open>SendBytes state bytes\<close> marks an entry of \<^verbatim>\<open>dwUSBSendBytes\<close> (one transport, whatever
  the number of USB attempts it takes) and \<open>UnsafeRead addr len\<close> an entry of
  \<^verbatim>\<open>DwUnsafeReadAddr\<close>; these two are bookkeeping of the model and change nothing else.
\<close>

datatype event =
    ControlOut u8 "u8 list"
  | ControlIn nat
  | SendBytes u8 "u8 list"
  | UnsafeRead int int
  | Console wr

text \<open>
  What libusb answers to an IN transfer: an error (\<open>InError e\<close> is the negative status
  \<open>- 1 - e\<close>) or the bytes the adapter delivered; the status is then their number.
\<close>

datatype usb_in = InError nat | InData "u8 list"

text \<open>
  The ways a run leaves DwPort.c without returning: \<^verbatim>\<open>Fail(msg)\<close>, reached directly or
  through \<^verbatim>\<open>PortFail\<close>, and a failed \<^verbatim>\<open>Assert\<close>.
  \<^item> \<open>BaudRateNotSet\<close>: "Failed to set debugWIRE port baud rate"
  \<^item> \<open>NoPulseTimings\<close>: "Digispark/LittleWire could not capture pulse timings after 25 break attempts."
  \<^item> \<open>NoDigispark\<close>: "Couldn't connect to digispark."
  \<^item> \<open>SendFailed\<close>: "Failed to send bytes to AVR, status ..."
  \<^item> \<open>NoTimingsAfterSync\<close>: "Could not read back timings following transfer and sync command"
\<close>

datatype error =
    BaudRateNotSet | NoPulseTimings | NoDigispark | SendFailed | NoTimingsAfterSync
  | AssertFailed

text \<open>
  The result of a C function over a state \<open>'s\<close>: it returns a value, or control leaves
  through \<^verbatim>\<open>Fail\<close>. Both keep the state reached, so that the trace of a failed run
  can be inspected too.
\<close>

datatype ('a, 's) outcome = Returned 'a 's | Failed error 's

fun final :: "('a, 's) outcome \<Rightarrow> 's" where
  "final (Returned x s) = s"
| "final (Failed e s) = s"

fun and_then :: "('a, 's) outcome \<Rightarrow> ('a \<Rightarrow> 's \<Rightarrow> ('b, 's) outcome) \<Rightarrow> ('b, 's) outcome" where
  "and_then (Returned x s) f = f x s"
| "and_then (Failed e s) f = Failed e s"

subsection \<open>The USB link (lines 34 to 144)\<close>

text \<open>
  \<open>Port\<close> is whether the handle is non-null. The adapter is the environment:
  \<open>usb_device\<close> says whether \<^verbatim>\<open>usbOpenDevice\<close> finds it, \<open>usb_out_status k\<close> is the
  status libusb returns for the \<open>k\<close>-th OUT transfer of the run and \<open>usb_in_reply k\<close>
  the answer to the \<open>k\<close>-th IN transfer; \<open>usb_outs\<close> and \<open>usb_ins\<close> count the transfers
  made so far. The program is deterministic, so every adapter, however it reacts to
  what it is sent, is one choice of these two sequences.
\<close>

record adapter =
  Port :: bool
  cyclesPerPulse :: u32
  usb_device :: bool
  usb_out_status :: "nat \<Rightarrow> int"
  usb_in_reply :: "nat \<Rightarrow> usb_in"
  usb_outs :: nat
  usb_ins :: nat
  trace :: "event list"

definition log_event :: "adapter \<Rightarrow> event \<Rightarrow> adapter" where
  "log_event a e = a\<lparr>trace := trace a @ [e]\<rparr>"

definition console :: "adapter \<Rightarrow> wr list \<Rightarrow> adapter" where
  "console a ws = a\<lparr>trace := trace a @ map Console ws\<rparr>"

definition usb_control_msg_out :: "adapter \<Rightarrow> u8 \<Rightarrow> u8 list \<Rightarrow> int \<times> adapter" where
  "usb_control_msg_out a v bytes =
     (usb_out_status a (usb_outs a),
      a\<lparr>usb_outs := Suc (usb_outs a), trace := trace a @ [ControlOut v bytes]\<rparr>)"

text \<open>An IN transfer returns the status and the bytes written to the front of the
  caller's buffer (at most \<open>n\<close>, the size of that buffer).\<close>

definition usb_control_msg_in :: "adapter \<Rightarrow> nat \<Rightarrow> (int \<times> u8 list) \<times> adapter" where
  "usb_control_msg_in a n =
     (let a' = a\<lparr>usb_ins := Suc (usb_ins a), trace := trace a @ [ControlIn n]\<rparr>
      in case usb_in_reply a (usb_ins a) of
           InError e \<Rightarrow> ((- 1 - int e, []), a')
         | InData d \<Rightarrow> ((int (length (take n d)), take n d), a'))"

text \<open>A buffer after \<open>new\<close> was written to its front.\<close>

definition overlay :: "'a list \<Rightarrow> 'a list \<Rightarrow> 'a list" where
  "overlay new old = new @ drop (length new) old"

text \<open>\<^verbatim>\<open>void PortFail(char *msg) {usb_close(Port); Port = 0; Fail(msg);}\<close>\<close>

definition PortFail :: "adapter \<Rightarrow> error \<Rightarrow> ('a, adapter) outcome" where
  "PortFail a e = Failed e (a\<lparr>Port := False\<rparr>)"

text \<open>
  The polling loop of \<^verbatim>\<open>SetDwireBaud\<close> (lines 45 to 52). \<^verbatim>\<open>times\<close> is an
  uninitialised array of 64 \<^verbatim>\<open>uint16_t\<close>; the model's \<open>tms\<close> keeps the bytes of it that
  have been written, none at first.
\<close>

function read_back_timings :: "adapter \<Rightarrow> int \<Rightarrow> int \<Rightarrow> u8 list \<Rightarrow> (int \<times> u8 list) \<times> adapter" where
  "read_back_timings a tries status tms =
     (if tries < 5 \<and> status \<le> 0
      then (case usb_control_msg_in a 128 of
              ((st, d), a') \<Rightarrow> read_back_timings a' (tries + 1) st (overlay d tms))
      else ((status, tms), a))"
  by pat_completeness auto
termination
  by (relation "measure (\<lambda>(a, tries, status, tms). nat (5 - tries))") auto

text \<open>\<^verbatim>\<open>times[i]\<close>: a 16-bit sample, low byte first (the host is little-endian).\<close>

definition times_at :: "u8 list \<Rightarrow> nat \<Rightarrow> u16" where
  "times_at tms i = word_of_nat (unat (tms ! (2 * i)) + 256 * unat (tms ! (2 * i + 1)))"

text \<open>The two bytes of a \<^verbatim>\<open>uint16_t\<close> in memory, low byte first.\<close>

definition bytes_of_u16 :: "u16 \<Rightarrow> u8 list" where
  "bytes_of_u16 w = [ucast w, ucast (drop_bit 8 w)]"

text \<open>The summation loop of line 63, \<open>i\<close> running over the last nine samples.\<close>

definition sum_times :: "u8 list \<Rightarrow> nat \<Rightarrow> u32" where
  "sum_times tms measurementCount =
     foldl (\<lambda>c i. c + ucast (times_at tms i)) 0 [measurementCount - 9 ..< measurementCount]"

definition SetDwireBaud :: "adapter \<Rightarrow> (int, adapter) outcome" where
  "SetDwireBaud a =
     (case read_back_timings a 0 0 [] of
        ((status, tms), a1) \<Rightarrow>
          if status < 18 then Returned 0 a1
          else
            let measurementCount = nat status div 2;
                cpp = (6 * sum_times tms measurementCount) div 9 + 8;
                a2 = a1\<lparr>cyclesPerPulse := cpp\<rparr>;
                dwBitTime = (ucast ((cpp - 8) div 4) :: u16)
            in case usb_control_msg_out a2 2 (bytes_of_u16 dwBitTime) of
                 (st, a3) \<Rightarrow>
                   if st < 0 then PortFail a3 BaudRateNotSet else Returned 1 a3)"

text \<open>The \<^verbatim>\<open>for\<close> loop of \<^verbatim>\<open>DwBreakAndSync\<close>, entered with \<open>tries\<close>.\<close>

function DwBreakAndSync_from :: "adapter \<Rightarrow> int \<Rightarrow> (unit, adapter) outcome" where
  "DwBreakAndSync_from a tries =
     (if tries < 25
      then (case usb_control_msg_out a 33 [] of
              (status, a1) \<Rightarrow>
                if status \<ge> 0
                then (case SetDwireBaud a1 of
                        Failed e a2 \<Rightarrow> Failed e a2
                      | Returned ok a2 \<Rightarrow>
                          if ok \<noteq> 0
                          then Returned ()
                                 (console a2 [Ws ''Connected at '',
                                              Wd (uint (16500000 div cyclesPerPulse a2)) 1,
                                              Wsl '' baud.''])
                          else DwBreakAndSync_from
                                 (console a2 [Wc CHR ''.'', ConsoleFlush]) (tries + 1))
                else DwBreakAndSync_from (console a1 [Wc CHR ''.'', ConsoleFlush]) (tries + 1))
      else PortFail (console a [Wl]) NoPulseTimings)"
  by pat_completeness auto
termination
  by (relation "measure (\<lambda>(a, tries). nat (25 - tries))") auto

definition DwBreakAndSync :: "adapter \<Rightarrow> (unit, adapter) outcome" where
  "DwBreakAndSync a = DwBreakAndSync_from a 0"

definition ConnectPort :: "adapter \<Rightarrow> (unit, adapter) outcome" where
  "ConnectPort a =
     (let a1 = a\<lparr>Port := usb_device a\<rparr>
      in if \<not> Port a1 then Failed NoDigispark a1 else DwBreakAndSync a1)"

text \<open>The retry loop of \<^verbatim>\<open>dwUSBSendBytes\<close> (lines 136 to 141).\<close>

function send_retry :: "adapter \<Rightarrow> u8 \<Rightarrow> u8 list \<Rightarrow> int \<Rightarrow> int \<Rightarrow> int \<times> adapter" where
  "send_retry a state out tries status =
     (if tries < 50 \<and> status \<le> 0
      then (case usb_control_msg_out a state out of
              (st, a') \<Rightarrow> send_retry a' state out (tries + 1) st)
      else (status, a))"
  by pat_completeness auto
termination
  by (relation "measure (\<lambda>(a, state, out, tries, status). nat (50 - tries))") auto

text \<open>\<^verbatim>\<open>dwUSBSendBytes(state, out, outlen)\<close>; \<open>out\<close> is the \<^verbatim>\<open>outlen\<close> bytes passed.\<close>

definition dwUSBSendBytes :: "adapter \<Rightarrow> u8 \<Rightarrow> u8 list \<Rightarrow> (unit, adapter) outcome" where
  "dwUSBSendBytes a0 state out =
     and_then (let a = log_event a0 (SendBytes state out)
               in if \<not> Port a then ConnectPort a else Returned () a)
       (\<lambda>_ a1. case usb_control_msg_out a1 state out of
          (st, a2) \<Rightarrow>
            (case send_retry a2 state out 0 st of
               (status, a3) \<Rightarrow>
                 if status < int (length out)
                 then PortFail
                        (console a3 [Ws ''Failed to send bytes to AVR, status '', Wd status 1])
                        SendFailed
                 else Returned () a3))"

subsection \<open>The outbound buffer (lines 147 to 221)\<close>

text \<open>
  \<^verbatim>\<open>char OutBufBytes[128]; int OutBufLength = 0;\<close> The array is a list of 128 bytes
  and the cursor an \<open>int\<close>, as in the source.
\<close>

record pipeline =
  link :: adapter
  OutBufBytes :: "u8 list"
  OutBufLength :: int

text \<open>A C function of the USB link, called from the buffer layer.\<close>

definition on_link :: "(adapter \<Rightarrow> ('a, adapter) outcome) \<Rightarrow> pipeline \<Rightarrow> ('a, pipeline) outcome" where
  "on_link f p =
     (case f (link p) of
        Returned x a \<Rightarrow> Returned x (p\<lparr>link := a\<rparr>)
      | Failed e a \<Rightarrow> Failed e (p\<lparr>link := a\<rparr>))"

text \<open>
  \<^verbatim>\<open>memcpy(dst + off, src, n)\<close> on a buffer \<open>dst\<close>. It is the C function as long as
  \<open>off + n \<le> length dst\<close> and \<open>n \<le> length src\<close>; beyond that C leaves the behaviour
  undefined.
\<close>

definition memcpy_at :: "u8 list \<Rightarrow> nat \<Rightarrow> u8 list \<Rightarrow> nat \<Rightarrow> u8 list" where
  "memcpy_at dst off src n = take off dst @ take n src @ drop (off + n) dst"

definition dwBufferFlush :: "pipeline \<Rightarrow> u8 \<Rightarrow> (unit, pipeline) outcome" where
  "dwBufferFlush p state =
     (if OutBufLength p > 0
      then and_then
             (on_link (\<lambda>a. dwUSBSendBytes a state (take (nat (OutBufLength p)) (OutBufBytes p))) p)
             (\<lambda>_ p1. Returned () (p1\<lparr>OutBufLength := 0\<rparr>))
      else Returned () p)"

text \<open>
  \<^verbatim>\<open>DwSend(out, outlen)\<close>; \<open>out\<close> is the \<^verbatim>\<open>outlen\<close> bytes passed. The comparison of
  line 170 is unsigned in C, which is the comparison below as long as
  \<open>0 \<le> OutBufLength\<close>.
\<close>

function DwSend :: "pipeline \<Rightarrow> u8 list \<Rightarrow> (unit, pipeline) outcome" where
  "DwSend p out =
     (if OutBufLength p + int (length out) > 128
      then (let lenToCopy = 128 - OutBufLength p;
                p1 = p\<lparr>OutBufBytes :=
                         memcpy_at (OutBufBytes p) (nat (OutBufLength p)) out (nat lenToCopy)\<rparr>
            in case on_link (\<lambda>a. dwUSBSendBytes a 0x04 (take 128 (OutBufBytes p1))) p1 of
                 Failed e p2 \<Rightarrow> Failed e p2
               | Returned _ p2 \<Rightarrow>
                   DwSend (p2\<lparr>OutBufLength := 0\<rparr>) (drop (nat lenToCopy) out))
      else if \<not> OutBufLength p + int (length out) \<le> 128 then Failed AssertFailed p
      else Returned ()
             (p\<lparr>OutBufBytes :=
                   memcpy_at (OutBufBytes p) (nat (OutBufLength p)) out (length out),
                OutBufLength := OutBufLength p + int (length out)\<rparr>))"
  by pat_completeness auto
termination
  by (relation "measure (\<lambda>(p, out). nat (OutBufLength p + int (length out)))") auto

definition DwFlush :: "pipeline \<Rightarrow> (unit, pipeline) outcome" where
  "DwFlush p = dwBufferFlush p 0x14"

text \<open>The polling loop of \<^verbatim>\<open>DwReceive\<close> (lines 201 to 206); \<open>inb\<close> is the caller's
  buffer of \<open>inlen\<close> bytes.\<close>

function receive_poll :: "adapter \<Rightarrow> u8 list \<Rightarrow> nat \<Rightarrow> int \<Rightarrow> int \<Rightarrow> (int \<times> u8 list) \<times> adapter" where
  "receive_poll a inb inlen tries status =
     (if tries < 50 \<and> status \<le> 0
      then (case usb_control_msg_in a inlen of
              ((st, d), a') \<Rightarrow> receive_poll a' (overlay d inb) inlen (tries + 1) st)
      else ((status, inb), a))"
  by pat_completeness auto
termination
  by (relation "measure (\<lambda>(a, inb, inlen, tries, status). nat (50 - tries))") auto

text \<open>\<^verbatim>\<open>DwReceive(in, inlen)\<close> returns the status and leaves the bytes read in \<^verbatim>\<open>in\<close>.\<close>

definition DwReceive :: "pipeline \<Rightarrow> u8 list \<Rightarrow> int \<Rightarrow> (int \<times> u8 list, pipeline) outcome" where
  "DwReceive p inb inlen =
     (if \<not> inlen \<le> 128 then Failed AssertFailed p
      else and_then (dwBufferFlush p 0x14)
             (\<lambda>_ p1. case receive_poll (link p1) inb (nat inlen) 0 0 of
                        (r, a) \<Rightarrow> Returned r (p1\<lparr>link := a\<rparr>)))"

text \<open>\<^verbatim>\<open>int DwReadByte() {u8 byte = 0; DwReceive(&byte, 1); return byte;}\<close>\<close>

definition DwReadByte :: "pipeline \<Rightarrow> (int, pipeline) outcome" where
  "DwReadByte p =
     and_then (DwReceive p [0] 1) (\<lambda>(status, buf) p1. Returned (uint (buf ! 0)) p1)"

text \<open>\<^verbatim>\<open>int DwReadWord() {u8 buf[2] = {0}; DwReceive(buf, 2); return (buf[0] << 8) | buf[1];}\<close>\<close>

definition DwReadWord :: "pipeline \<Rightarrow> (int, pipeline) outcome" where
  "DwReadWord p =
     and_then (DwReceive p [0, 0] 2)
       (\<lambda>(status, buf) p1. Returned (push_bit 8 (uint (buf ! 0)) OR uint (buf ! 1)) p1)"

definition DwSync :: "pipeline \<Rightarrow> (unit, pipeline) outcome" where
  "DwSync p =
     and_then (dwBufferFlush p 0x24)
       (\<lambda>_ p1. and_then (on_link SetDwireBaud p1)
          (\<lambda>ok p2. if ok = 0 then on_link (\<lambda>a. PortFail a NoTimingsAfterSync) p2
                    else Returned () p2))"

definition DwWait :: "pipeline \<Rightarrow> (unit, pipeline) outcome" where
  "DwWait p = dwBufferFlush p 0x0C"

subsection \<open>The command encoder (lines 230 to 255)\<close>

text \<open>\<^verbatim>\<open>u8 hi(int w) {return (w>>8)&0xff;}\<close> and \<^verbatim>\<open>u8 lo(int w) {return (w)&0xff;}\<close>\<close>

definition hi :: "int \<Rightarrow> u8" where
  "hi w = word_of_int (drop_bit 8 w AND 0xff)"

definition lo :: "int \<Rightarrow> u8" where
  "lo w = word_of_int (w AND 0xff)"

text \<open>
  \<^verbatim>\<open>Bytes(...)\<close> is a macro DwPort.c does not define; from its uses it passes the
  listed bytes and their number, here the list itself.
\<close>

definition DwSetPC :: "pipeline \<Rightarrow> u16 \<Rightarrow> (unit, pipeline) outcome" where
  "DwSetPC p pc = DwSend p [0xD0, hi (uint pc) OR 0x10, lo (uint pc)]"

definition DwSetBP :: "pipeline \<Rightarrow> u16 \<Rightarrow> (unit, pipeline) outcome" where
  "DwSetBP p bp = DwSend p [0xD1, hi (uint bp) OR 0x10, lo (uint bp)]"

definition DwInst :: "pipeline \<Rightarrow> u16 \<Rightarrow> (unit, pipeline) outcome" where
  "DwInst p inst = DwSend p [0xD2, hi (uint inst), lo (uint inst), 0x23]"

text \<open>The opcodes built on lines 254 and 255, computed in \<^verbatim>\<open>int\<close> as C does, and
  converted to \<^verbatim>\<open>u16\<close> when passed to \<^verbatim>\<open>DwInst\<close>.\<close>

definition in_opcode :: "u8 \<Rightarrow> u16 \<Rightarrow> int" where
  "in_opcode reg ioreg =
     0xB000 OR (push_bit 5 (uint ioreg) AND 0x600) OR (push_bit 4 (uint reg) AND 0x01F0)
       OR (uint ioreg AND 0x000F)"

definition out_opcode :: "u16 \<Rightarrow> u8 \<Rightarrow> int" where
  "out_opcode ioreg reg =
     0xB800 OR (push_bit 5 (uint ioreg) AND 0x600) OR (push_bit 4 (uint reg) AND 0x01F0)
       OR (uint ioreg AND 0x000F)"

definition DwIn :: "pipeline \<Rightarrow> u8 \<Rightarrow> u16 \<Rightarrow> (unit, pipeline) outcome" where
  "DwIn p reg ioreg = DwInst p (word_of_int (in_opcode reg ioreg))"

definition DwOut :: "pipeline \<Rightarrow> u16 \<Rightarrow> u8 \<Rightarrow> (unit, pipeline) outcome" where
  "DwOut p ioreg reg = DwInst p (word_of_int (out_opcode ioreg reg))"

subsection \<open>The session (lines 259 to 395)\<close>

text \<open>
  Modelled from the spec: DwPort.c uses and does not declare the shadow registers
  \<^verbatim>\<open>R\<close> (indexed 0 to 31), \<^verbatim>\<open>PC\<close>, \<^verbatim>\<open>BP\<close> (both signed: the source tests
  \<^verbatim>\<open>BP < 0\<close>), \<^verbatim>\<open>TimerEnable\<close>, and the device characteristics \<^verbatim>\<open>FlashSize()\<close>,
  \<^verbatim>\<open>DWDRreg()\<close> and \<^verbatim>\<open>DWDRaddr()\<close>, which are fields of the session here.
\<close>

record session =
  pipe :: pipeline
  R :: "u8 list"
  PC :: int
  BP :: int
  TimerEnable :: bool
  FlashSize :: int
  DWDRreg :: int
  DWDRaddr :: int

text \<open>A C function of the buffer layer, called from the session layer.\<close>

definition on_pipe :: "(pipeline \<Rightarrow> ('a, pipeline) outcome) \<Rightarrow> session \<Rightarrow> ('a, session) outcome" where
  "on_pipe f s =
     (case f (pipe s) of
        Returned x p \<Rightarrow> Returned x (s\<lparr>pipe := p\<rparr>)
      | Failed e p \<Rightarrow> Failed e (s\<lparr>pipe := p\<rparr>))"

definition events :: "session \<Rightarrow> event list" where
  "events s = trace (link (pipe s))"

definition note_event :: "session \<Rightarrow> event \<Rightarrow> session" where
  "note_event s e = s\<lparr>pipe := (pipe s)\<lparr>link := log_event (link (pipe s)) e\<rparr>\<rparr>"

text \<open>C's \<^verbatim>\<open>/\<close> and \<^verbatim>\<open>%\<close> on \<^verbatim>\<open>int\<close> truncate towards zero (a zero divisor is
  undefined in C).\<close>

definition c_div :: "int \<Rightarrow> int \<Rightarrow> int" where
  "c_div a b = sgn a * sgn b * (\<bar>a\<bar> div \<bar>b\<bar>)"

definition c_rem :: "int \<Rightarrow> int \<Rightarrow> int" where
  "c_rem a b = a - b * c_div a b"

text \<open>\<^verbatim>\<open>DwGetRegs(first, regs, count)\<close>; \<open>regs\<close> is the caller's buffer, returned as
  the receive left it.\<close>

definition DwGetRegs :: "session \<Rightarrow> int \<Rightarrow> u8 list \<Rightarrow> int \<Rightarrow> (u8 list, session) outcome" where
  "DwGetRegs s first regs count =
     on_pipe (\<lambda>p.
       and_then
         (if count = 1 then DwOut p (word_of_int (DWDRreg s)) (word_of_int first)
          else and_then (DwSetPC p (word_of_int first))
                 (\<lambda>_ p1. and_then (DwSetBP p1 (word_of_int (first + count)))
                    (\<lambda>_ p2. DwSend p2 [0x66, 0xC2, 1, 0x20])))
         (\<lambda>_ p3. and_then (DwReceive p3 regs count)
            (\<lambda>(status, regs') p4. Returned regs' p4))) s"

definition DwSetReg :: "session \<Rightarrow> int \<Rightarrow> u8 \<Rightarrow> (unit, session) outcome" where
  "DwSetReg s reg val =
     on_pipe (\<lambda>p. and_then (DwIn p (word_of_int reg) (word_of_int (DWDRreg s)))
                     (\<lambda>_ p1. DwSend p1 [val])) s"

text \<open>The \<^verbatim>\<open>while (count > 0)\<close> loop of \<^verbatim>\<open>DwSetRegs\<close>, over the bytes left.\<close>

fun DwSetRegs_each :: "session \<Rightarrow> int \<Rightarrow> u8 list \<Rightarrow> (unit, session) outcome" where
  "DwSetRegs_each s first [] = Returned () s"
| "DwSetRegs_each s first (r # regs) =
     (case DwSetReg s first r of
        Failed e s1 \<Rightarrow> Failed e s1
      | Returned _ s1 \<Rightarrow> DwSetRegs_each s1 (first + 1) regs)"

text \<open>\<^verbatim>\<open>DwSetRegs(first, regs, count)\<close>; \<open>regs\<close> is the \<^verbatim>\<open>count\<close> bytes passed.\<close>

definition DwSetRegs :: "session \<Rightarrow> int \<Rightarrow> u8 list \<Rightarrow> (unit, session) outcome" where
  "DwSetRegs s first regs =
     (if int (length regs) \<le> 3 then DwSetRegs_each s first regs
      else on_pipe (\<lambda>p.
             and_then (DwSetPC p (word_of_int first))
               (\<lambda>_ p1. and_then (DwSetBP p1 (word_of_int (first + int (length regs))))
                  (\<lambda>_ p2. and_then (DwSend p2 [0x66, 0xC2, 0x05, 0x20])
                     (\<lambda>_ p3. DwSend p3 regs)))) s)"

text \<open>\<^verbatim>\<open>void DwSetZ(u16 z) {DwSetRegs(30, (u8*)&z, 2);}\<close>\<close>

definition DwSetZ :: "session \<Rightarrow> u16 \<Rightarrow> (unit, session) outcome" where
  "DwSetZ s z = DwSetRegs s 30 (bytes_of_u16 z)"

definition DwUnsafeReadAddr :: "session \<Rightarrow> int \<Rightarrow> int \<Rightarrow> u8 list \<Rightarrow> (u8 list, session) outcome" where
  "DwUnsafeReadAddr s addr len buf =
     and_then (DwSetZ (note_event s (UnsafeRead addr len)) (word_of_int addr))
       (\<lambda>_ s1. on_pipe (\<lambda>p.
          and_then (DwSetPC p 0)
            (\<lambda>_ p1. and_then (DwSetBP p1 (word_of_int (2 * len)))
               (\<lambda>_ p2. and_then (DwSend p2 [0x66, 0xC2, 0x00, 0x20])
                  (\<lambda>_ p3. and_then (DwReceive p3 buf len)
                     (\<lambda>(status, buf') p4. Returned buf' p4))))) s1)"

text \<open>
  \<^verbatim>\<open>DwReadAddr\<close> moves its pointer \<^verbatim>\<open>buf\<close> along the caller's buffer; the model keeps
  the whole buffer and the offset \<open>off\<close> of the pointer in it.
  \<open>unsafe_read_into s addr len buf off\<close> is the call
  \<^verbatim>\<open>DwUnsafeReadAddr(addr, len, buf)\<close> with the pointer at \<open>off\<close>.
\<close>

definition write_at :: "u8 list \<Rightarrow> nat \<Rightarrow> u8 list \<Rightarrow> u8 list" where
  "write_at buf off new = take off buf @ new @ drop (off + length new) buf"

definition unsafe_read_into :: "session \<Rightarrow> int \<Rightarrow> int \<Rightarrow> u8 list \<Rightarrow> nat \<Rightarrow> (u8 list, session) outcome" where
  "unsafe_read_into s addr len buf off =
     and_then (DwUnsafeReadAddr s addr len (take (nat len) (drop off buf)))
       (\<lambda>new s1. Returned (write_at buf off new) s1)"

text \<open>The loop of lines 310 to 312 over the cached registers.\<close>

function read_cached :: "u8 list \<Rightarrow> int \<Rightarrow> int \<Rightarrow> u8 list \<Rightarrow> nat \<Rightarrow> int \<times> int \<times> u8 list \<times> nat" where
  "read_cached Rs addr len buf off =
     (if addr \<ge> 28 \<and> addr \<le> 31 \<and> len > 0
      then read_cached Rs (addr + 1) (len - 1) (buf[off := Rs ! nat addr]) (Suc off)
      else (addr, len, buf, off))"
  by pat_completeness auto
termination
  by (relation "measure (\<lambda>(Rs, addr, len, buf, off). nat (32 - addr))") auto

text \<open>Lines 322 and 323: what lies beyond DWDR, at most 128 bytes at a time.\<close>

function read_chunks :: "session \<Rightarrow> int \<Rightarrow> int \<Rightarrow> u8 list \<Rightarrow> nat \<Rightarrow> (u8 list, session) outcome" where
  "read_chunks s addr len buf off =
     (if len > 128
      then (case unsafe_read_into s addr 128 buf off of
              Failed e s1 \<Rightarrow> Failed e s1
            | Returned buf1 s1 \<Rightarrow> read_chunks s1 (addr + 128) (len - 128) buf1 (off + 128))
      else if len > 0 then unsafe_read_into s addr len buf off
      else Returned buf s)"
  by pat_completeness auto
termination
  by (relation "measure (\<lambda>(s, addr, len, buf, off). nat len)") auto

definition DwReadAddr :: "session \<Rightarrow> int \<Rightarrow> int \<Rightarrow> u8 list \<Rightarrow> (u8 list, session) outcome" where
  "DwReadAddr s addr len buf =
     (let len1 = min len (28 - addr)
      in and_then
           (if len1 > 0
            then and_then (unsafe_read_into s addr len1 buf 0)
                   (\<lambda>buf1 s1. Returned (addr + len1, len - len1, buf1, nat len1) s1)
            else Returned (addr, len, buf, 0) s)
           (\<lambda>(addr1, len', buf1, off1) s1.
              case read_cached (R s1) addr1 len' buf1 off1 of
                (addr2, len'', buf2, off2) \<Rightarrow>
                  (let len2 = min len'' (DWDRaddr s1 - addr2)
                   in and_then
                        (if len2 > 0
                         then and_then (unsafe_read_into s1 addr2 len2 buf2 off2)
                                (\<lambda>buf3 s2.
                                   Returned (addr2 + len2, len'' - len2, buf3, off2 + nat len2) s2)
                         else Returned (addr2, len'', buf2, off2) s1)
                        (\<lambda>(addr3, len3, buf3, off3) s2.
                           if addr3 = DWDRaddr s2 \<and> len3 > 0
                           then read_chunks s2 (addr3 + 1) (len3 - 1) (buf3[off3 := 0]) (Suc off3)
                           else read_chunks s2 addr3 len3 buf3 off3))))"

text \<open>\<^verbatim>\<open>DwGetRegs(28, R+28, 4)\<close> reads into \<^verbatim>\<open>R[28..31]\<close>.\<close>

definition DwReconnect :: "session \<Rightarrow> (unit, session) outcome" where
  "DwReconnect s =
     and_then (on_pipe (\<lambda>p. and_then (DwSend p [0xF0]) (\<lambda>_ p1. DwReadWord p1)) s)
       (\<lambda>w s1.
          let s2 = s1\<lparr>PC := c_rem (2 * (w - 1)) (FlashSize s1)\<rparr>
          in and_then (DwGetRegs s2 28 (take 4 (drop 28 (R s2))) 4)
               (\<lambda>regs s3. Returned () (s3\<lparr>R := take 28 (R s3) @ regs @ drop 32 (R s3)\<rparr>)))"

text \<open>\<^verbatim>\<open>DwSetRegs(28, R, 4)\<close>: the pointer passed is \<^verbatim>\<open>R\<close>, so the four bytes sent are
  \<^verbatim>\<open>R[0..3]\<close>.\<close>

definition DwGo :: "session \<Rightarrow> (unit, session) outcome" where
  "DwGo s =
     and_then (DwSetRegs s 28 (take 4 (R s)))
       (\<lambda>_ s1. on_pipe (\<lambda>p.
          and_then (DwSetPC p (word_of_int (c_div (PC s1) 2)))
            (\<lambda>_ p1. and_then
               (if BP s1 < 0 then DwSend p1 [if TimerEnable s1 then 0x40 else 0x60]
                else and_then (DwSetBP p1 (word_of_int (c_div (BP s1) 2)))
                       (\<lambda>_ p2. DwSend p2 [if TimerEnable s1 then 0x41 else 0x61]))
               (\<lambda>_ p3. and_then (DwSend p3 [0x30]) (\<lambda>_ p4. DwWait p4)))) s1)"

subsection \<open>An instruction decoder for the two synthesized instructions\<close>

text \<open>
  Modelled from the spec: DwPort.c has no instruction decoder. \<open>avr_decode\<close> reads
  back the fields of the two layouts of section 4.4.2, which are those of the AVR
  instruction set: \<^verbatim>\<open>IN Rd,A\<close> is \<^verbatim>\<open>1011 0AAd dddd AAAA\<close> and \<^verbatim>\<open>OUT A,Rr\<close> is
  \<^verbatim>\<open>1011 1AAr rrrr AAAA\<close>. It returns the operation, the register and the I/O
  register, or \<open>None\<close> for any other opcode.
\<close>

datatype io_op = OpIn | OpOut

definition avr_decode :: "u16 \<Rightarrow> (io_op \<times> nat \<times> nat) option" where
  "avr_decode w =
     (if drop_bit 12 w = 0xB
      then Some (if bit w 11 then OpOut else OpIn,
                 unat (drop_bit 4 w AND 0x1F),
                 unat ((drop_bit 5 w AND 0x30) OR (w AND 0x0F)))
      else None)"

text \<open>The opcode as a word, on operands cut to their field widths.\<close>

definition io_word :: "u16 \<Rightarrow> u8 \<Rightarrow> u16 \<Rightarrow> u16" where
  "io_word base reg ioreg =
     base OR (push_bit 5 (take_bit 6 ioreg) AND 0x600)
       OR (push_bit 4 (ucast (take_bit 5 reg)) AND 0x01F0) OR (take_bit 6 ioreg AND 0x000F)"

section \<open>Vocabulary of the properties\<close>

text \<open>The state at program start: \<^verbatim>\<open>char OutBufBytes[128]; int OutBufLength = 0;\<close> are
  globals, so the array is zeroed; the link is whatever the adapter is.\<close>

definition startup :: "adapter \<Rightarrow> pipeline" where
  "startup a = \<lparr>link = a, OutBufBytes = replicate 128 0, OutBufLength = 0\<rparr>"

text \<open>The transports of a trace, in order: the state byte and the bytes of every call
  of \<^verbatim>\<open>dwUSBSendBytes\<close>.\<close>

fun transports :: "event list \<Rightarrow> (u8 \<times> u8 list) list" where
  "transports [] = []"
| "transports (SendBytes state bytes # es) = (state, bytes) # transports es"
| "transports (e # es) = transports es"

text \<open>The bulk reads of a trace, in order: address and length of every call of
  \<^verbatim>\<open>DwUnsafeReadAddr\<close>.\<close>

fun unsafe_reads :: "event list \<Rightarrow> (int \<times> int) list" where
  "unsafe_reads [] = []"
| "unsafe_reads (UnsafeRead addr len # es) = (addr, len) # unsafe_reads es"
| "unsafe_reads (e # es) = unsafe_reads es"

text \<open>\<open>quiet a a'\<close>: from \<open>a\<close> to \<open>a'\<close> the adapter is the same environment and no
  transport and no bulk read was started. \<open>calm\<close> is the same but for transports.\<close>

definition quiet :: "adapter \<Rightarrow> adapter \<Rightarrow> bool" where
  "quiet a a' \<longleftrightarrow>
     usb_device a' = usb_device a \<and> usb_out_status a' = usb_out_status a
     \<and> usb_in_reply a' = usb_in_reply a
     \<and> transports (trace a') = transports (trace a)
     \<and> unsafe_reads (trace a') = unsafe_reads (trace a)"

definition calm :: "adapter \<Rightarrow> adapter \<Rightarrow> bool" where
  "calm a a' \<longleftrightarrow>
     usb_device a' = usb_device a \<and> usb_out_status a' = usb_out_status a
     \<and> usb_in_reply a' = usb_in_reply a
     \<and> unsafe_reads (trace a') = unsafe_reads (trace a)"

text \<open>The invariant of the outbound buffer, and the same with the size of the array.\<close>

definition buffer_bounded :: "pipeline \<Rightarrow> bool" where
  "buffer_bounded p \<longleftrightarrow> 0 \<le> OutBufLength p \<and> OutBufLength p \<le> 128"

definition buffer_ok :: "pipeline \<Rightarrow> bool" where
  "buffer_ok p \<longleftrightarrow> buffer_bounded p \<and> length (OutBufBytes p) = 128"

text \<open>The bytes waiting in the buffer, and the transports made so far.\<close>

definition buffered :: "pipeline \<Rightarrow> u8 list" where
  "buffered p = take (nat (OutBufLength p)) (OutBufBytes p)"

definition sent :: "pipeline \<Rightarrow> (u8 \<times> u8 list) list" where
  "sent p = transports (trace (link p))"

text \<open>\<open>chunks_of p out p' ts\<close>: the transports \<open>ts\<close> and the buffer of \<open>p'\<close> hold, in
  order, what was buffered in \<open>p\<close> followed by \<open>out\<close>.\<close>

definition chunks_of :: "pipeline \<Rightarrow> u8 list \<Rightarrow> pipeline \<Rightarrow> (u8 \<times> u8 list) list \<Rightarrow> bool" where
  "chunks_of p out p' ts \<longleftrightarrow>
     length ts = (nat (OutBufLength p) + length out - 1) div 128
     \<and> concat (map snd ts) @ buffered p' = buffered p @ out"

text \<open>Every send-then-read transport (state 0x14) of the list carries a byte.\<close>

definition fed :: "(u8 \<times> u8 list) list \<Rightarrow> bool" where
  "fed ts \<longleftrightarrow> (\<forall>t\<in>set ts. fst t = 0x14 \<longrightarrow> snd t \<noteq> [])"

text \<open>An adapter that is plugged in and open, accepts every OUT transfer whole (up to
  128 bytes) and has nothing to deliver.\<close>

definition willing_adapter :: adapter where
  "willing_adapter =
     \<lparr>Port = True, cyclesPerPulse = 0, usb_device = True,
      usb_out_status = (\<lambda>k. 128), usb_in_reply = (\<lambda>k. InData []),
      usb_outs = 0, usb_ins = 0, trace = []\<rparr>"

text \<open>No IN transfer of the run delivers a byte: each fails or returns nothing.\<close>

definition no_inbound_data :: "adapter \<Rightarrow> bool" where
  "no_inbound_data a \<longleftrightarrow> (\<forall>k. usb_in_reply a k \<in> range InError \<or> usb_in_reply a k = InData [])"

text \<open>The buffer after \<open>out\<close> was appended by a \<^verbatim>\<open>DwSend\<close> that needs no transport.\<close>

definition push :: "pipeline \<Rightarrow> u8 list \<Rightarrow> pipeline" where
  "push p out =
     p\<lparr>OutBufBytes := memcpy_at (OutBufBytes p) (nat (OutBufLength p)) out (length out),
       OutBufLength := OutBufLength p + int (length out)\<rparr>"

text \<open>\<open>same_registers s s'\<close>: the two sessions differ at most in their pipelines.\<close>

definition same_registers :: "session \<Rightarrow> session \<Rightarrow> bool" where
  "same_registers s s' \<longleftrightarrow> s' = s\<lparr>pipe := pipe s'\<rparr>"

text \<open>A session halted at byte address 0x0100 with a breakpoint at 0x0200, on a part
  with 8 KiB of flash and DWDR at I/O address 0x22 (data address 0x42); register
  \<open>i\<close> of the shadow holds \<open>i\<close>; the adapter is the willing one and the buffer is empty.\<close>

definition example_session :: session where
  "example_session =
     \<lparr>pipe = startup willing_adapter, R = map word_of_nat [0 ..< 32],
      PC = 0x0100, BP = 0x0200, TimerEnable = True,
      FlashSize = 8192, DWDRreg = 0x22, DWDRaddr = 0x42\<rparr>"

text \<open>The bytes \<^verbatim>\<open>DwGo\<close> emits when it restores the registers \<open>regs\<close>, starts at word
  0x0080 and breaks at word 0x0100 with the timers enabled.\<close>

definition go_bytes :: "u8 list \<Rightarrow> u8 list" where
  "go_bytes regs =
     [0xD0, 0x10, 0x1C, 0xD1, 0x10, 0x20, 0x66, 0xC2, 0x05, 0x20] @ regs
       @ [0xD0, 0x10, 0x80, 0xD1, 0x11, 0x00, 0x41, 0x30]"

text \<open>A willing adapter whose target answers the first read with \<^verbatim>\<open>00 81\<close> and every
  later one with \<^verbatim>\<open>AA BB CC DD\<close>; the example session on it; and its pipeline after
  \<^verbatim>\<open>F0\<close> was sent and the two bytes read.\<close>

definition answering_adapter :: adapter where
  "answering_adapter =
     willing_adapter\<lparr>usb_in_reply :=
       (\<lambda>k. if k = 0 then InData [0x00, 0x81] else InData [0xAA, 0xBB, 0xCC, 0xDD])\<rparr>"

definition answering_session :: session where
  "answering_session = example_session\<lparr>pipe := startup answering_adapter\<rparr>"

definition after_F0 :: pipeline where
  "after_F0 =
     \<lparr>link = answering_adapter\<lparr>usb_outs := 1, usb_ins := 1,
         trace := [SendBytes 0x14 [0xF0], ControlOut 0x14 [0xF0], ControlIn 2]\<rparr>,
      OutBufBytes = 0xF0 # replicate 127 0, OutBufLength = 0\<rparr>"

text \<open>Sample \<open>i\<close> of a read-back, as a number, and the sum of the last nine of the
  first \<open>n\<close> samples.\<close>

definition sample :: "u8 list \<Rightarrow> nat \<Rightarrow> nat" where
  "sample tms i = unat (tms ! (2 * i)) + 256 * unat (tms ! (2 * i + 1))"

definition pulse_sum :: "u8 list \<Rightarrow> nat \<Rightarrow> nat" where
  "pulse_sum tms n = sum_list (map (sample tms) [n - 9 ..< n])"

text \<open>Nine pulse widths of 82; a willing adapter that reads them back, fresh and after
  the break was sent; and one that reads back nine pulse widths of 65535.\<close>

definition pulses_82 :: "u8 list" where
  "pulses_82 = [0x52, 0, 0x52, 0, 0x52, 0, 0x52, 0, 0x52, 0, 0x52, 0, 0x52, 0, 0x52, 0, 0x52, 0]"

definition pulsing_adapter :: adapter where
  "pulsing_adapter = willing_adapter\<lparr>usb_in_reply := (\<lambda>k. InData pulses_82)\<rparr>"

definition after_break :: adapter where
  "after_break = pulsing_adapter\<lparr>usb_outs := 1, trace := [ControlOut 33 []]\<rparr>"

definition saturated_adapter :: adapter where
  "saturated_adapter = willing_adapter\<lparr>usb_in_reply := (\<lambda>k. InData (replicate 18 0xFF))\<rparr>"

text \<open>\<open>touches r h\<close>: the bulk read \<open>r\<close>, an address and a length, covers the data
  address \<open>h\<close>. The hazardous addresses of a session are r28 to r31 and DWDR.\<close>

definition touches :: "int \<times> int \<Rightarrow> int \<Rightarrow> bool" where
  "touches r h \<longleftrightarrow> fst r \<le> h \<and> h < fst r + snd r"

definition hazards :: "session \<Rightarrow> int set" where
  "hazards s = {28, 29, 30, 31, DWDRaddr s}"

text \<open>An adapter that is open and accepts every OUT transfer whole, and a session on
  such an adapter whose buffer is empty.\<close>

definition accepting :: "adapter \<Rightarrow> bool" where
  "accepting a \<longleftrightarrow> Port a \<and> (\<forall>k. usb_out_status a k = 128)"

definition ready :: "session \<Rightarrow> bool" where
  "ready s \<longleftrightarrow> buffer_ok (pipe s) \<and> OutBufLength (pipe s) = 0 \<and> accepting (link (pipe s))"

text \<open>The pipeline of a fresh session on the willing adapter after \<^verbatim>\<open>DwSend(Bytes(0x07))\<close>,
  the state in which \<^verbatim>\<open>DwReset\<close> calls \<^verbatim>\<open>DwSync\<close>.\<close>

definition reset_sent :: pipeline where
  "reset_sent = push (startup willing_adapter) [0x07]"

section \<open>Properties\<close>

declare read_back_timings.simps [simp del] DwBreakAndSync_from.simps [simp del]
  send_retry.simps [simp del] DwSend.simps [simp del] receive_poll.simps [simp del]
  read_cached.simps [simp del] read_chunks.simps [simp del]

subsection \<open>The synthesized IN and OUT instructions\<close>

lemma bit_position_cases:
  "(n::nat) < 16 \<Longrightarrow> n \<in> {0, 1, 2, 3, 4, 5, 6, 7, 8, 9, 10, 11, 12, 13, 14, 15}"
  by simp arith

lemma in_opcode_word:
  "reg < 32 \<Longrightarrow> ioreg < 64 \<Longrightarrow> word_of_int (in_opcode reg ioreg) = io_word 0xB000 reg ioreg"
proof -
  assume "reg < 32" "ioreg < 64"
  then have "take_bit 5 reg = reg" "take_bit 6 ioreg = ioreg"
    using less_mask_eq [of reg 5] less_mask_eq [of ioreg 6] by (simp_all add: take_bit_eq_mask)
  then show ?thesis
    by (simp add: in_opcode_def io_word_def of_int_or_eq of_int_and_eq of_int_push_bit)
qed

lemma out_opcode_word:
  "reg < 32 \<Longrightarrow> ioreg < 64 \<Longrightarrow> word_of_int (out_opcode ioreg reg) = io_word 0xB800 reg ioreg"
proof -
  assume "reg < 32" "ioreg < 64"
  then have "take_bit 5 reg = reg" "take_bit 6 ioreg = ioreg"
    using less_mask_eq [of reg 5] less_mask_eq [of ioreg 6] by (simp_all add: take_bit_eq_mask)
  then show ?thesis
    by (simp add: out_opcode_def io_word_def of_int_or_eq of_int_and_eq of_int_push_bit)
qed

lemma io_word_reg:
  "base = 0xB000 \<or> base = 0xB800 \<Longrightarrow>
   drop_bit 4 (io_word base reg ioreg) AND 0x1F = ucast (take_bit 5 reg)"
  unfolding io_word_def
  apply (rule bit_word_eqI)
  apply simp
  apply (drule bit_position_cases [simplified])
  apply (elim disjE)
  apply (simp_all add: bit_simps)
  done

lemma io_word_ioreg:
  "base = 0xB000 \<or> base = 0xB800 \<Longrightarrow>
   (drop_bit 5 (io_word base reg ioreg) AND 0x30) OR (io_word base reg ioreg AND 0x0F)
     = take_bit 6 ioreg"
  unfolding io_word_def
  apply (rule bit_word_eqI)
  apply simp
  apply (drule bit_position_cases [simplified])
  apply (elim disjE)
  apply (simp_all add: bit_simps)
  done

lemma io_word_top:
  "base = 0xB000 \<or> base = 0xB800 \<Longrightarrow> drop_bit 12 (io_word base reg ioreg) = 0xB"
  unfolding io_word_def
  apply (rule bit_word_eqI)
  apply simp
  apply (drule bit_position_cases [simplified])
  apply (elim disjE)
  apply (simp_all add: bit_simps)
  done

lemma io_word_bit11:
  "bit (io_word 0xB000 reg ioreg) 11 = False" "bit (io_word 0xB800 reg ioreg) 11 = True"
  unfolding io_word_def by (simp_all add: bit_simps)

lemma unat_ucast_u8_u16: "unat (ucast (reg :: u8) :: u16) = unat reg"
proof -
  have "unat reg < 2 ^ 8"
    using unsigned_less [of reg] by simp
  then have "unat reg < 2 ^ 16"
    by simp
  then show ?thesis
    by (simp add: unsigned_ucast_eq take_bit_nat_eq_self)
qed

lemma decode_in:
  assumes "reg < 32" "ioreg < 64"
  shows "avr_decode (word_of_int (in_opcode reg ioreg)) = Some (OpIn, unat reg, unat ioreg)"
proof -
  from assms have tb: "take_bit 5 reg = reg" "take_bit 6 ioreg = ioreg"
    using less_mask_eq [of reg 5] less_mask_eq [of ioreg 6] by (simp_all add: take_bit_eq_mask)
  show ?thesis
    unfolding in_opcode_word [OF assms] avr_decode_def
    by (simp add: io_word_reg io_word_ioreg io_word_top io_word_bit11 tb unat_ucast_u8_u16)
qed

lemma decode_out:
  assumes "reg < 32" "ioreg < 64"
  shows "avr_decode (word_of_int (out_opcode ioreg reg)) = Some (OpOut, unat reg, unat ioreg)"
proof -
  from assms have tb: "take_bit 5 reg = reg" "take_bit 6 ioreg = ioreg"
    using less_mask_eq [of reg 5] less_mask_eq [of ioreg 6] by (simp_all add: take_bit_eq_mask)
  show ?thesis
    unfolding out_opcode_word [OF assms] avr_decode_def
    by (simp add: io_word_reg io_word_ioreg io_word_top io_word_bit11 tb unat_ucast_u8_u16)
qed

text \<open>
  Claim C7. For every register below 32 and I/O register below 64, decoding the opcode
  \<^verbatim>\<open>DwIn\<close> builds gives back IN with the same register and I/O register, and
  decoding the opcode \<^verbatim>\<open>DwOut\<close> builds gives back OUT with them. Hence each encoding
  is injective on that domain and no IN opcode is an OUT opcode.
\<close>

theorem io_opcodes_roundtrip:
  assumes "reg < 32" "ioreg < 64"
  shows "avr_decode (word_of_int (in_opcode reg ioreg)) = Some (OpIn, unat reg, unat ioreg)
       \<and> avr_decode (word_of_int (out_opcode ioreg reg)) = Some (OpOut, unat reg, unat ioreg)
       \<and> (\<forall>reg' ioreg'. reg' < 32 \<and> ioreg' < 64 \<longrightarrow>
             (in_opcode reg ioreg = in_opcode reg' ioreg' \<longrightarrow> reg = reg' \<and> ioreg = ioreg')
           \<and> (out_opcode ioreg reg = out_opcode ioreg' reg' \<longrightarrow> reg = reg' \<and> ioreg = ioreg')
           \<and> in_opcode reg ioreg \<noteq> out_opcode ioreg' reg')"
proof (intro conjI allI impI)
  show "avr_decode (word_of_int (in_opcode reg ioreg)) = Some (OpIn, unat reg, unat ioreg)"
    by (rule decode_in [OF assms])
  show "avr_decode (word_of_int (out_opcode ioreg reg)) = Some (OpOut, unat reg, unat ioreg)"
    by (rule decode_out [OF assms])
next
  fix reg' :: u8 and ioreg' :: u16
  assume b: "reg' < 32 \<and> ioreg' < 64" and e: "in_opcode reg ioreg = in_opcode reg' ioreg'"
  from b have "avr_decode (word_of_int (in_opcode reg' ioreg')) = Some (OpIn, unat reg', unat ioreg')"
    by (simp add: decode_in)
  with e decode_in [OF assms] have "unat reg = unat reg'" "unat ioreg = unat ioreg'" by simp_all
  then show "reg = reg'" "ioreg = ioreg'" by (simp_all add: word_unat_eq_iff)
next
  fix reg' :: u8 and ioreg' :: u16
  assume b: "reg' < 32 \<and> ioreg' < 64" and e: "out_opcode ioreg reg = out_opcode ioreg' reg'"
  from b have "avr_decode (word_of_int (out_opcode ioreg' reg')) = Some (OpOut, unat reg', unat ioreg')"
    by (simp add: decode_out)
  with e decode_out [OF assms] have "unat reg = unat reg'" "unat ioreg = unat ioreg'" by simp_all
  then show "reg = reg'" "ioreg = ioreg'" by (simp_all add: word_unat_eq_iff)
next
  fix reg' :: u8 and ioreg' :: u16
  assume b: "reg' < 32 \<and> ioreg' < 64"
  then have "avr_decode (word_of_int (out_opcode ioreg' reg')) = Some (OpOut, unat reg', unat ioreg')"
    by (simp add: decode_out)
  with decode_in [OF assms] show "in_opcode reg ioreg \<noteq> out_opcode ioreg' reg'" by auto
qed

theorem io_opcodes_roundtrip_witness:
  "(17::u8) < 32 \<and> (0x31::u16) < 64
   \<and> in_opcode 17 0x31 = 0xB711 \<and> out_opcode 0x31 17 = 0xBF11
   \<and> avr_decode 0xB711 = Some (OpIn, 17, 49) \<and> avr_decode 0xBF11 = Some (OpOut, 17, 49)"
  using io_opcodes_roundtrip [of 17 "0x31"]
  by (simp add: in_opcode_def out_opcode_def)

subsection \<open>The USB link leaves the environment alone\<close>

lemma transports_append [simp]: "transports (xs @ ys) = transports xs @ transports ys"
  by (induction xs rule: transports.induct) simp_all

lemma unsafe_reads_append [simp]: "unsafe_reads (xs @ ys) = unsafe_reads xs @ unsafe_reads ys"
  by (induction xs rule: unsafe_reads.induct) simp_all

lemma transports_Console [simp]: "transports (map Console ws) = []"
  by (induction ws) simp_all

lemma unsafe_reads_Console [simp]: "unsafe_reads (map Console ws) = []"
  by (induction ws) simp_all

lemma quiet_refl [simp]: "quiet a a"
  by (simp add: quiet_def)

lemma quiet_trans: "quiet a b \<Longrightarrow> quiet b c \<Longrightarrow> quiet a c"
  by (simp add: quiet_def)

lemma quiet_console [simp]: "quiet a (console a ws)"
  by (simp add: quiet_def console_def)

lemma quiet_Port [simp]: "quiet a (a\<lparr>Port := b\<rparr>)"
  by (simp add: quiet_def)

lemma quiet_cyclesPerPulse [simp]: "quiet a (a\<lparr>cyclesPerPulse := c\<rparr>)"
  by (simp add: quiet_def)

lemma quiet_usb_out: "quiet a (snd (usb_control_msg_out a v bytes))"
  by (simp add: quiet_def usb_control_msg_out_def)

lemma quiet_usb_in: "quiet a (snd (usb_control_msg_in a n))"
  by (simp add: quiet_def usb_control_msg_in_def Let_def split: usb_in.splits)

lemma quiet_PortFail [simp]: "quiet a (final (PortFail a e))"
  by (simp add: PortFail_def)

lemma quiet_read_back_timings: "quiet a (snd (read_back_timings a tries status tms))"
proof (induction a tries status tms rule: read_back_timings.induct)
  case (1 a tries status tms)
  show ?case
  proof (cases "tries < 5 \<and> status \<le> 0")
    case True
    obtain st d a' where u: "usb_control_msg_in a 128 = ((st, d), a')"
      by (cases "usb_control_msg_in a 128") auto
    have "quiet a a'"
      using quiet_usb_in [of a 128] u by simp
    moreover have "quiet a' (snd (read_back_timings a' (tries + 1) st (overlay d tms)))"
      using 1 True u by simp
    ultimately show ?thesis
      using True u by (subst read_back_timings.simps) (simp add: quiet_def)
  next
    case False
    then show ?thesis
      by (subst read_back_timings.simps) auto
  qed
qed

lemma quiet_SetDwireBaud: "quiet a (final (SetDwireBaud a))"
proof -
  obtain status tms a1 where r: "read_back_timings a 0 0 [] = ((status, tms), a1)"
    by (cases "read_back_timings a 0 0 []") auto
  have q1: "quiet a a1"
    using quiet_read_back_timings [of a 0 0 "[]"] r by simp
  show ?thesis
  proof (cases "status < 18")
    case True
    then show ?thesis
      using r q1 by (simp add: SetDwireBaud_def)
  next
    case False
    define a2 where "a2 = a1\<lparr>cyclesPerPulse := (6 * sum_times tms (nat status div 2)) div 9 + 8\<rparr>"
    define bytes where "bytes = bytes_of_u16 (ucast ((cyclesPerPulse a2 - 8) div 4))"
    obtain st a3 where o: "usb_control_msg_out a2 2 bytes = (st, a3)"
      by (metis prod.exhaust)
    have "quiet a1 a2"
      by (simp add: a2_def)
    moreover have "quiet a2 a3"
      using quiet_usb_out [of a2 2 bytes] o by simp
    ultimately have "quiet a a3"
      using q1 by (simp add: quiet_def)
    moreover have "final (SetDwireBaud a) = (if st < 0 then a3\<lparr>Port := False\<rparr> else a3)"
      using r False o by (simp add: SetDwireBaud_def Let_def a2_def bytes_def PortFail_def)
    ultimately show ?thesis
      by (simp add: quiet_def)
  qed
qed

lemma quiet_DwBreakAndSync_from: "quiet a (final (DwBreakAndSync_from a tries))"
proof (induction a tries rule: DwBreakAndSync_from.induct)
  case (1 a tries)
  show ?case
  proof (cases "tries < 25")
    case False
    then show ?thesis
      by (subst DwBreakAndSync_from.simps) (simp add: PortFail_def quiet_def console_def)
  next
    case True
    obtain status a1 where o: "usb_control_msg_out a 33 [] = (status, a1)"
      by (metis prod.exhaust)
    have q1: "quiet a a1"
      using quiet_usb_out [of a 33 "[]"] o by simp
    show ?thesis
    proof (cases "status \<ge> 0")
      case False
      have "quiet (console a1 [Wc CHR ''.'', ConsoleFlush])
              (final (DwBreakAndSync_from (console a1 [Wc CHR ''.'', ConsoleFlush]) (tries + 1)))"
        using 1(2) True o False by simp
      then have "quiet a (final (DwBreakAndSync_from (console a1 [Wc CHR ''.'', ConsoleFlush]) (tries + 1)))"
        using q1 by (simp add: quiet_def console_def)
      then show ?thesis
        using True o False by (subst DwBreakAndSync_from.simps) simp
    next
      case st: True
      have q2: "quiet a1 (final (SetDwireBaud a1))"
        by (rule quiet_SetDwireBaud)
      show ?thesis
      proof (cases "SetDwireBaud a1")
        case (Failed e a2)
        then show ?thesis
          using True o st q1 q2 by (subst DwBreakAndSync_from.simps) (simp add: quiet_def)
      next
        case (Returned ok a2)
        show ?thesis
        proof (cases "ok \<noteq> 0")
          case ok: True
          then show ?thesis
            using True o st q1 q2 Returned
            by (subst DwBreakAndSync_from.simps) (simp add: quiet_def console_def)
        next
          case ok: False
          have "quiet (console a2 [Wc CHR ''.'', ConsoleFlush])
                  (final (DwBreakAndSync_from (console a2 [Wc CHR ''.'', ConsoleFlush]) (tries + 1)))"
            using 1(1) [OF True _ st Returned] o ok by simp
          then have "quiet a (final (DwBreakAndSync_from (console a2 [Wc CHR ''.'', ConsoleFlush]) (tries + 1)))"
            using q1 q2 Returned by (simp add: quiet_def console_def)
          then show ?thesis
            using True o st Returned ok by (subst DwBreakAndSync_from.simps) simp
        qed
      qed
    qed
  qed
qed

lemma quiet_ConnectPort: "quiet a (final (ConnectPort a))"
proof (cases "usb_device a")
  case True
  then show ?thesis
    using quiet_DwBreakAndSync_from [of "a\<lparr>Port := True\<rparr>" 0]
    by (simp add: ConnectPort_def Let_def DwBreakAndSync_def quiet_def)
next
  case False
  then show ?thesis
    by (simp add: ConnectPort_def Let_def)
qed

lemma quiet_send_retry: "quiet a (snd (send_retry a state out tries status))"
proof (induction a state out tries status rule: send_retry.induct)
  case (1 a state out tries status)
  show ?case
  proof (cases "tries < 50 \<and> status \<le> 0")
    case True
    obtain st a' where u: "usb_control_msg_out a state out = (st, a')"
      by (metis prod.exhaust)
    have "quiet a a'"
      using quiet_usb_out [of a state out] u by simp
    moreover have "quiet a' (snd (send_retry a' state out (tries + 1) st))"
      using 1 True u by simp
    ultimately show ?thesis
      using True u by (subst send_retry.simps) (simp add: quiet_def)
  next
    case False
    then show ?thesis
      by (subst send_retry.simps) auto
  qed
qed

lemma quiet_dwUSBSendBytes:
  "quiet (log_event a (SendBytes state out)) (final (dwUSBSendBytes a state out))"
proof -
  define a0 where "a0 = log_event a (SendBytes state out)"
  define c where "c = (if \<not> Port a0 then ConnectPort a0 else Returned () a0)"
  have qc: "quiet a0 (final c)"
    using quiet_ConnectPort [of a0] by (simp add: c_def)
  show ?thesis
  proof (cases c)
    case (Failed e a1)
    then show ?thesis
      using qc by (simp add: dwUSBSendBytes_def a0_def [symmetric] c_def [symmetric])
  next
    case (Returned u a1)
    obtain st a2 where o: "usb_control_msg_out a1 state out = (st, a2)"
      by (metis prod.exhaust)
    obtain status a3 where r: "send_retry a2 state out 0 st = (status, a3)"
      by (metis prod.exhaust)
    have "quiet a1 a2"
      using quiet_usb_out [of a1 state out] o by simp
    moreover have "quiet a2 a3"
      using quiet_send_retry [of a2 state out 0 st] r by simp
    ultimately have "quiet a0 a3"
      using qc Returned by (simp add: quiet_def)
    then have "quiet a0 (final (if status < int (length out)
        then PortFail (console a3 [Ws ''Failed to send bytes to AVR, status '', Wd status 1]) SendFailed
        else Returned () a3 :: (unit, adapter) outcome))"
      by (simp add: PortFail_def quiet_def console_def)
    then show ?thesis
      using Returned o r by (simp add: dwUSBSendBytes_def a0_def [symmetric] c_def [symmetric])
  qed
qed

subsection \<open>The buffer layer\<close>

lemma calm_refl [simp]: "calm a a"
  by (simp add: calm_def)

lemma calm_trans: "calm a b \<Longrightarrow> calm b c \<Longrightarrow> calm a c"
  by (simp add: calm_def)

lemma quiet_calm: "quiet a b \<Longrightarrow> calm a b"
  by (simp add: quiet_def calm_def)

lemma on_link_buffer [simp]:
  "OutBufLength (final (on_link f p)) = OutBufLength p"
  "OutBufBytes (final (on_link f p)) = OutBufBytes p"
  "link (final (on_link f p)) = final (f (link p))"
  by (simp_all add: on_link_def split: outcome.splits)

lemma on_link_Returned:
  "on_link f p = Returned x p' \<longleftrightarrow> (\<exists>a. f (link p) = Returned x a \<and> p' = p\<lparr>link := a\<rparr>)"
  by (auto simp: on_link_def split: outcome.splits)

lemma on_link_Failed:
  "on_link f p = Failed e p' \<longleftrightarrow> (\<exists>a. f (link p) = Failed e a \<and> p' = p\<lparr>link := a\<rparr>)"
  by (auto simp: on_link_def split: outcome.splits)

lemma dwUSBSendBytes_sent:
  "transports (trace (final (dwUSBSendBytes a state out))) = transports (trace a) @ [(state, out)]"
  using quiet_dwUSBSendBytes [of a state out] by (simp add: quiet_def log_event_def)

lemma dwUSBSendBytes_calm: "calm a (final (dwUSBSendBytes a state out))"
  using quiet_dwUSBSendBytes [of a state out] by (simp add: quiet_def calm_def log_event_def)

subsection \<open>Flushing the buffer\<close>

lemma dwBufferFlush_empty: "OutBufLength p \<le> 0 \<Longrightarrow> dwBufferFlush p state = Returned () p"
  by (simp add: dwBufferFlush_def)

lemma dwBufferFlush_final:
  "final (dwBufferFlush p state) =
     (if OutBufLength p > 0
      then (case dwUSBSendBytes (link p) state (buffered p) of
              Returned _ a \<Rightarrow> p\<lparr>link := a, OutBufLength := 0\<rparr>
            | Failed e a \<Rightarrow> p\<lparr>link := a\<rparr>)
      else p)"
  by (simp add: dwBufferFlush_def on_link_def buffered_def split: outcome.splits)

lemma dwBufferFlush_Returned:
  "dwBufferFlush p state = Returned u p' \<Longrightarrow> OutBufLength p' = (if OutBufLength p > 0 then 0 else OutBufLength p) \<and> OutBufBytes p' = OutBufBytes p"
  by (auto simp: dwBufferFlush_def on_link_def split: outcome.splits if_splits)

lemma dwBufferFlush_bounded:
  "buffer_bounded p \<Longrightarrow> buffer_bounded (final (dwBufferFlush p state))"
  by (simp add: dwBufferFlush_final buffer_bounded_def split: outcome.splits)

lemma dwBufferFlush_ok:
  "buffer_ok p \<Longrightarrow> buffer_ok (final (dwBufferFlush p state))"
  by (simp add: dwBufferFlush_final buffer_ok_def buffer_bounded_def split: outcome.splits)

lemma dwBufferFlush_sent:
  "sent (final (dwBufferFlush p state)) =
     sent p @ (if OutBufLength p > 0 then [(state, buffered p)] else [])"
  using dwUSBSendBytes_sent [of "link p" state "buffered p"]
  by (auto simp: dwBufferFlush_final sent_def split: outcome.splits)

lemma dwBufferFlush_calm: "calm (link p) (link (final (dwBufferFlush p state)))"
  using dwUSBSendBytes_calm [of "link p" state "buffered p"]
  by (auto simp: dwBufferFlush_final split: outcome.splits)

lemma buffered_length: "buffer_ok p \<Longrightarrow> length (buffered p) = nat (OutBufLength p)"
  by (auto simp: buffered_def buffer_ok_def buffer_bounded_def)

subsection \<open>Sending\<close>

lemma DwSend_fits:
  "OutBufLength p + int (length out) \<le> 128 \<Longrightarrow>
   DwSend p out =
     Returned () (p\<lparr>OutBufBytes := memcpy_at (OutBufBytes p) (nat (OutBufLength p)) out (length out),
                    OutBufLength := OutBufLength p + int (length out)\<rparr>)"
  by (subst DwSend.simps) simp

lemma DwSend_bounded: "buffer_bounded p \<Longrightarrow> buffer_bounded (final (DwSend p out))"
proof (induction p out rule: DwSend.induct)
  case (1 p out)
  show ?case
  proof (cases "OutBufLength p + int (length out) > 128")
    case False
    then show ?thesis
      using 1(2) by (simp add: DwSend_fits buffer_bounded_def)
  next
    case True
    define p1 where "p1 = p\<lparr>OutBufBytes :=
      memcpy_at (OutBufBytes p) (nat (OutBufLength p)) out (nat (128 - OutBufLength p))\<rparr>"
    define r where "r = on_link (\<lambda>a. dwUSBSendBytes a 0x04 (take 128 (OutBufBytes p1))) p1"
    have unfold: "DwSend p out =
        (case r of Failed e p2 \<Rightarrow> Failed e p2
         | Returned u p2 \<Rightarrow> DwSend (p2\<lparr>OutBufLength := 0\<rparr>) (drop (nat (128 - OutBufLength p)) out))"
      using True by (subst DwSend.simps) (simp add: Let_def p1_def r_def)
    show ?thesis
    proof (cases r)
      case (Failed e p2)
      moreover have "OutBufLength (final r) = OutBufLength p"
        by (simp add: r_def p1_def)
      ultimately have "OutBufLength p2 = OutBufLength p"
        by simp
      then show ?thesis
        using unfold \<open>r = Failed e p2\<close> 1(2) by (simp add: buffer_bounded_def)
    next
      case (Returned u p2)
      have "buffer_bounded (p2\<lparr>OutBufLength := 0\<rparr>)"
        by (simp add: buffer_bounded_def)
      then have "buffer_bounded (final (DwSend (p2\<lparr>OutBufLength := 0\<rparr>) (drop (nat (128 - OutBufLength p)) out)))"
        using 1(1) [OF True refl refl] Returned by (simp add: r_def p1_def)
      then show ?thesis
        using unfold Returned by simp
    qed
  qed
qed

lemma memcpy_at_length:
  "off + n \<le> length dst \<Longrightarrow> n \<le> length src \<Longrightarrow> length (memcpy_at dst off src n) = length dst"
  by (simp add: memcpy_at_def)

lemma push_buffered:
  assumes "buffer_ok p" "OutBufLength p + int (length out) \<le> 128"
  shows "take (nat (OutBufLength p + int (length out)))
           (memcpy_at (OutBufBytes p) (nat (OutBufLength p)) out (length out)) = buffered p @ out"
proof -
  have "nat (OutBufLength p + int (length out)) = nat (OutBufLength p) + length out"
    using assms by (simp add: buffer_ok_def buffer_bounded_def nat_add_distrib)
  moreover have "length (take (nat (OutBufLength p)) (OutBufBytes p)) = nat (OutBufLength p)"
    using assms by (auto simp: buffer_ok_def buffer_bounded_def)
  ultimately show ?thesis
    by (simp add: memcpy_at_def buffered_def)
qed

lemma fill_buffered:
  assumes "buffer_ok p" "OutBufLength p + int (length out) > 128"
  shows "memcpy_at (OutBufBytes p) (nat (OutBufLength p)) out (nat (128 - OutBufLength p))
           = buffered p @ take (nat (128 - OutBufLength p)) out"
    and "length (buffered p @ take (nat (128 - OutBufLength p)) out) = 128"
proof -
  have "nat (OutBufLength p) + nat (128 - OutBufLength p) = 128"
    using assms unfolding buffer_ok_def buffer_bounded_def by linarith
  then show "memcpy_at (OutBufBytes p) (nat (OutBufLength p)) out (nat (128 - OutBufLength p))
           = buffered p @ take (nat (128 - OutBufLength p)) out"
    using assms by (simp add: memcpy_at_def buffered_def buffer_ok_def)
  show "length (buffered p @ take (nat (128 - OutBufLength p)) out) = 128"
    using assms by (auto simp: buffered_def buffer_ok_def buffer_bounded_def)
qed

lemma DwSend_effect:
  "buffer_ok p \<Longrightarrow>
   buffer_ok (final (DwSend p out)) \<and> calm (link p) (link (final (DwSend p out))) \<and>
   (\<exists>ts. sent (final (DwSend p out)) = sent p @ ts
        \<and> (\<forall>t\<in>set ts. fst t = 4 \<and> length (snd t) = 128)
        \<and> (\<forall>p'. DwSend p out = Returned () p' \<longrightarrow> chunks_of p out p' ts))"
proof (induction p out rule: DwSend.induct)
  case (1 p out)
  note ok = \<open>buffer_ok p\<close>
  show ?case
  proof (cases "OutBufLength p + int (length out) > 128")
    case False
    define p' where "p' = p\<lparr>OutBufBytes := memcpy_at (OutBufBytes p) (nat (OutBufLength p)) out (length out),
                    OutBufLength := OutBufLength p + int (length out)\<rparr>"
    have eq: "DwSend p out = Returned () p'"
      using False by (simp add: DwSend_fits p'_def)
    have b: "buffered p' = buffered p @ out"
      using push_buffered [OF ok] False by (simp add: p'_def buffered_def)
    have "nat (OutBufLength p) + length out \<le> 128"
      using False ok unfolding buffer_ok_def buffer_bounded_def by linarith
    then have k: "(nat (OutBufLength p) + length out - 1) div 128 = 0"
      by simp
    have "buffer_ok p'"
      using ok False \<open>nat (OutBufLength p) + length out \<le> 128\<close>
      by (simp add: p'_def buffer_ok_def buffer_bounded_def memcpy_at_length)
    moreover have "calm (link p) (link p')"
      by (simp add: p'_def)
    moreover have "sent p' = sent p @ []"
      by (simp add: sent_def p'_def)
    moreover have "chunks_of p out p' []"
      using b k by (simp add: chunks_of_def)
    ultimately show ?thesis
      unfolding eq by (intro conjI exI [of _ "[]"]) simp_all
  next
    case True
    define l where "l = nat (128 - OutBufLength p)"
    define payload where "payload = buffered p @ take l out"
    define p1 where "p1 = p\<lparr>OutBufBytes := payload\<rparr>"
    define r where "r = on_link (\<lambda>a. dwUSBSendBytes a 0x04 payload) p1"
    have len: "length payload = 128"
      using fill_buffered(2) [OF ok True] by (simp add: payload_def l_def)
    define raw where "raw = p\<lparr>OutBufBytes :=
      memcpy_at (OutBufBytes p) (nat (OutBufLength p)) out (nat (128 - OutBufLength p))\<rparr>"
    have raw: "raw = p1" "take 128 (OutBufBytes raw) = payload"
      using fill_buffered(1) [OF ok True] len
      by (simp_all add: raw_def p1_def payload_def l_def del: take_append)
    have unfold: "DwSend p out =
        (case r of Failed e p2 \<Rightarrow> Failed e p2
         | Returned u p2 \<Rightarrow> DwSend (p2\<lparr>OutBufLength := 0\<rparr>) (drop l out))"
      unfolding r_def raw [symmetric] l_def
      using True by (subst DwSend.simps) (simp add: Let_def raw_def del: take_append)
    have fr: "OutBufLength (final r) = OutBufLength p" "OutBufBytes (final r) = payload"
      "link (final r) = final (dwUSBSendBytes (link p) 0x04 payload)"
      by (simp_all add: r_def p1_def)
    have sr: "sent (final r) = sent p @ [(4, payload)]"
      using dwUSBSendBytes_sent [of "link p" 4 payload] by (simp add: sent_def fr)
    have cr: "calm (link p) (link (final r))"
      using dwUSBSendBytes_calm [of "link p" 4 payload] by (simp add: fr)
    show ?thesis
    proof (cases r)
      case (Failed e p2)
      then have p2: "p2 = final r"
        by simp
      have "buffer_ok p2"
        using ok len by (simp add: p2 buffer_ok_def buffer_bounded_def fr)
      moreover have "DwSend p out = Failed e p2"
        using unfold Failed by simp
      ultimately show ?thesis
        using sr cr len by (intro conjI exI [of _ "[(4, payload)]"]) (simp_all add: p2)
    next
      case (Returned u p2)
      then have p2: "p2 = final r"
        by simp
      define q where "q = p2\<lparr>OutBufLength := 0\<rparr>"
      have okq: "buffer_ok q"
        using len by (simp add: q_def p2 buffer_ok_def buffer_bounded_def fr)
      have step: "DwSend p out = DwSend q (drop l out)"
        using unfold Returned by (simp add: q_def)
      have ih: "buffer_ok (final (DwSend q (drop l out))) \<and>
          calm (link q) (link (final (DwSend q (drop l out)))) \<and>
          (\<exists>ts. sent (final (DwSend q (drop l out))) = sent q @ ts
             \<and> (\<forall>t\<in>set ts. fst t = 4 \<and> length (snd t) = 128)
             \<and> (\<forall>p'. DwSend q (drop l out) = Returned () p' \<longrightarrow> chunks_of q (drop l out) p' ts))"
      proof -
        have "on_link (\<lambda>a. dwUSBSendBytes a 0x04 (take 128 (OutBufBytes raw))) raw = Returned u p2"
          using Returned len by (simp add: raw(1) r_def p1_def)
        then show ?thesis
          using 1(1) [OF True refl refl, of u p2] okq unfolding raw_def q_def l_def by blast
      qed
      then obtain ts where ts: "sent (final (DwSend q (drop l out))) = sent q @ ts"
          "\<forall>t\<in>set ts. fst t = 4 \<and> length (snd t) = 128"
          "\<forall>p'. DwSend q (drop l out) = Returned () p' \<longrightarrow> chunks_of q (drop l out) p' ts"
        by blast
      have sq: "sent q = sent p @ [(4, payload)]"
        using sr by (simp add: q_def p2 sent_def)
      have cq: "calm (link p) (link q)"
        using cr by (simp add: q_def p2)
      have bq: "buffered q = []" "OutBufLength q = 0"
        by (simp_all add: buffered_def q_def)
      have arith: "(nat (OutBufLength p) + length out - 1) div 128
                     = Suc ((length (drop l out) - 1) div 128)"
      proof -
        have "nat (OutBufLength p) + length out > 128" "nat (OutBufLength p) + l = 128"
          using True ok unfolding buffer_ok_def buffer_bounded_def l_def by linarith+
        then have "length (drop l out) = nat (OutBufLength p) + length out - 128"
          by simp
        moreover have "(n - 1) div 128 = Suc ((n - 128 - 1) div 128)" if "n > 128" for n :: nat
          using that by (simp add: div_nat_eqI)
        ultimately show ?thesis
          using \<open>nat (OutBufLength p) + length out > 128\<close> by simp
      qed
      have chunk: "chunks_of p out p' ((4, payload) # ts)" if "chunks_of q (drop l out) p' ts" for p'
        using that arith by (simp add: chunks_of_def bq payload_def)
      show ?thesis
        unfolding step
        using ih ts sq chunk len calm_trans [OF cq]
        by (intro conjI exI [of _ "(4, payload) # ts"]) auto
    qed
  qed
qed

lemma dwUSBSendBytes_accepted:
  assumes "Port a" "0 < usb_out_status a (usb_outs a)" "int (length out) \<le> usb_out_status a (usb_outs a)"
  shows "dwUSBSendBytes a state out =
           Returned () (a\<lparr>usb_outs := Suc (usb_outs a),
                          trace := trace a @ [SendBytes state out, ControlOut state out]\<rparr>)"
  using assms
  by (simp add: dwUSBSendBytes_def log_event_def usb_control_msg_out_def send_retry.simps)

lemma quiet_receive_poll: "quiet a (snd (receive_poll a inb inlen tries status))"
proof (induction a inb inlen tries status rule: receive_poll.induct)
  case (1 a inb inlen tries status)
  show ?case
  proof (cases "tries < 50 \<and> status \<le> 0")
    case True
    obtain st d a' where u: "usb_control_msg_in a inlen = ((st, d), a')"
      by (cases "usb_control_msg_in a inlen") auto
    have "quiet a a'"
      using quiet_usb_in [of a inlen] u by simp
    moreover have "quiet a' (snd (receive_poll a' (overlay d inb) inlen (tries + 1) st))"
      using 1 True u by simp
    ultimately show ?thesis
      using True u by (subst receive_poll.simps) (simp add: quiet_def)
  next
    case False
    then show ?thesis
      by (subst receive_poll.simps) auto
  qed
qed

lemma DwReceive_final:
  assumes "inlen \<le> 128"
  shows "\<exists>a. quiet (link (final (dwBufferFlush p 0x14))) a
           \<and> final (DwReceive p inb inlen) = (final (dwBufferFlush p 0x14))\<lparr>link := a\<rparr>"
proof (cases "dwBufferFlush p 0x14")
  case (Failed e p1)
  then have "final (DwReceive p inb inlen) = p1\<lparr>link := link p1\<rparr>"
    using assms by (simp add: DwReceive_def)
  then show ?thesis
    using Failed by (intro exI [of _ "link p1"]) simp
next
  case (Returned u p1)
  then have "final (DwReceive p inb inlen) = p1\<lparr>link := snd (receive_poll (link p1) inb (nat inlen) 0 0)\<rparr>"
    using assms by (simp add: DwReceive_def split: prod.splits)
  then show ?thesis
    using Returned quiet_receive_poll [of "link p1" inb "nat inlen" 0 0]
    by (intro exI [of _ "snd (receive_poll (link p1) inb (nat inlen) 0 0)"]) simp
qed

lemma DwReceive_props:
  "OutBufLength (final (DwReceive p inb inlen)) =
     (if inlen \<le> 128 then OutBufLength (final (dwBufferFlush p 0x14)) else OutBufLength p)"
  "OutBufBytes (final (DwReceive p inb inlen)) = OutBufBytes p"
  "sent (final (DwReceive p inb inlen)) =
     sent p @ (if inlen \<le> 128 \<and> OutBufLength p > 0 then [(0x14, buffered p)] else [])"
  "calm (link p) (link (final (DwReceive p inb inlen)))"
proof -
  have big: "final (DwReceive p inb inlen) = p" if "\<not> inlen \<le> 128"
    using that by (simp add: DwReceive_def)
  have bytes: "OutBufBytes (final (dwBufferFlush p 0x14)) = OutBufBytes p"
    by (simp add: dwBufferFlush_final split: outcome.splits)
  show "OutBufLength (final (DwReceive p inb inlen)) =
     (if inlen \<le> 128 then OutBufLength (final (dwBufferFlush p 0x14)) else OutBufLength p)"
    using DwReceive_final [of inlen p inb] big by auto
  show "OutBufBytes (final (DwReceive p inb inlen)) = OutBufBytes p"
    using DwReceive_final [of inlen p inb] big bytes by (cases "inlen \<le> 128") auto
  show "sent (final (DwReceive p inb inlen)) =
     sent p @ (if inlen \<le> 128 \<and> OutBufLength p > 0 then [(0x14, buffered p)] else [])"
    using DwReceive_final [of inlen p inb] big dwBufferFlush_sent [of p "0x14"]
    by (cases "inlen \<le> 128") (auto simp: sent_def quiet_def)
  show "calm (link p) (link (final (DwReceive p inb inlen)))"
    using DwReceive_final [of inlen p inb] big dwBufferFlush_calm [of p "0x14"]
    by (cases "inlen \<le> 128") (auto simp: quiet_def calm_def)
qed

lemma DwSync_final:
  "\<exists>a. quiet (link (final (dwBufferFlush p 0x24))) a
           \<and> final (DwSync p) = (final (dwBufferFlush p 0x24))\<lparr>link := a\<rparr>"
proof (cases "dwBufferFlush p 0x24")
  case (Failed e p1)
  then have "final (DwSync p) = p1\<lparr>link := link p1\<rparr>"
    by (simp add: DwSync_def)
  then show ?thesis
    using Failed by (intro exI [of _ "link p1"]) simp
next
  case (Returned u p1)
  define a where "a = final (SetDwireBaud (link p1))"
  have qa: "quiet (link p1) a"
    unfolding a_def by (rule quiet_SetDwireBaud)
  have "final (DwSync p) = p1\<lparr>link := a\<rparr> \<or> final (DwSync p) = p1\<lparr>link := a\<lparr>Port := False\<rparr>\<rparr>"
    using Returned by (auto simp: DwSync_def on_link_def PortFail_def a_def split: outcome.splits)
  moreover have "quiet (link p1) (a\<lparr>Port := False\<rparr>)"
    using qa by (simp add: quiet_def)
  ultimately show ?thesis
    using Returned qa by auto
qed

lemma DwSync_props:
  "OutBufLength (final (DwSync p)) = OutBufLength (final (dwBufferFlush p 0x24))"
  "OutBufBytes (final (DwSync p)) = OutBufBytes p"
  "sent (final (DwSync p)) = sent p @ (if OutBufLength p > 0 then [(0x24, buffered p)] else [])"
  "calm (link p) (link (final (DwSync p)))"
proof -
  have bytes: "OutBufBytes (final (dwBufferFlush p 0x24)) = OutBufBytes p"
    by (simp add: dwBufferFlush_final split: outcome.splits)
  show "OutBufLength (final (DwSync p)) = OutBufLength (final (dwBufferFlush p 0x24))"
    using DwSync_final [of p] by auto
  show "OutBufBytes (final (DwSync p)) = OutBufBytes p"
    using DwSync_final [of p] bytes by auto
  show "sent (final (DwSync p)) = sent p @ (if OutBufLength p > 0 then [(0x24, buffered p)] else [])"
    using DwSync_final [of p] dwBufferFlush_sent [of p "0x24"]
    by (auto simp: sent_def quiet_def)
  show "calm (link p) (link (final (DwSync p)))"
    using DwSync_final [of p] dwBufferFlush_calm [of p "0x24"]
    by (auto simp: quiet_def calm_def)
qed

lemma length_concat_chunks:
  "\<forall>t\<in>set ts. fst t = (4::u8) \<and> length (snd t) = 128 \<Longrightarrow>
   length (concat (map snd ts)) = 128 * length ts"
  by (induction ts) simp_all

lemma DwSend_residue:
  assumes "buffer_ok p" "DwSend p out = Returned () p'"
  obtains ts where "sent p' = sent p @ ts"
    and "length ts = (nat (OutBufLength p) + length out - 1) div 128"
    and "\<forall>t\<in>set ts. fst t = 4 \<and> length (snd t) = 128"
    and "concat (map snd ts) @ buffered p' = buffered p @ out"
    and "buffer_ok p'"
    and "OutBufLength p' =
           OutBufLength p + int (length out)
             - 128 * int ((nat (OutBufLength p) + length out - 1) div 128)"
proof -
  define k where "k = (nat (OutBufLength p) + length out - 1) div 128"
  from DwSend_effect [OF assms(1), of out] assms(2)
  obtain ts where ts: "sent p' = sent p @ ts" "\<forall>t\<in>set ts. fst t = 4 \<and> length (snd t) = 128"
      "chunks_of p out p' ts" and ok': "buffer_ok p'"
    by auto
  have k: "length ts = k" and cat: "concat (map snd ts) @ buffered p' = buffered p @ out"
    using ts(3) by (simp_all add: chunks_of_def k_def)
  have "length (concat (map snd ts) @ buffered p') = length (buffered p @ out)"
    using cat by simp
  then have "128 * k + nat (OutBufLength p') = nat (OutBufLength p) + length out"
    using length_concat_chunks [OF ts(2)] k buffered_length [OF ok'] buffered_length [OF assms(1)]
    by simp
  moreover have "0 \<le> OutBufLength p'" "0 \<le> OutBufLength p"
    using ok' assms(1) by (simp_all add: buffer_ok_def buffer_bounded_def)
  ultimately have "OutBufLength p' = OutBufLength p + int (length out) - 128 * int k"
    by linarith
  then show ?thesis
    using that [OF ts(1) k [unfolded k_def] ts(2) cat ok'] by (simp add: k_def)
qed

lemma willing_send_300:
  "\<exists>p'. DwSend (startup willing_adapter) (replicate 300 7) = Returned () p'"
  apply (subst DwSend.simps)
  apply (simp add: startup_def willing_adapter_def Let_def memcpy_at_def on_link_def dwUSBSendBytes_accepted)
  apply (subst DwSend.simps)
  apply (simp add: Let_def memcpy_at_def on_link_def dwUSBSendBytes_accepted)
  apply (subst DwSend.simps)
  apply (simp add: memcpy_at_def)
  done

lemma fed_append [simp]: "fed (xs @ ys) \<longleftrightarrow> fed xs \<and> fed ys"
  by (auto simp: fed_def)

lemma fed_Nil [simp]: "fed []"
  by (simp add: fed_def)

lemma fed_single [simp]: "fed [(m, b)] \<longleftrightarrow> (m = 0x14 \<longrightarrow> b \<noteq> [])"
  by (simp add: fed_def)

lemma fed_chunks: "\<forall>t\<in>set ts. fst t = (4::u8) \<and> length (snd t) = 128 \<Longrightarrow> fed ts"
  by (induction ts) (auto simp: fed_def)

subsection \<open>The bound on the outbound buffer\<close>

text \<open>
  Claim C5. \<open>0 \<le> OutBufLength \<le> 128\<close> holds at program start and, if it holds before,
  it holds after \<^verbatim>\<open>DwSend\<close> of any bytes, \<^verbatim>\<open>DwFlush\<close>, \<^verbatim>\<open>DwReceive\<close>, \<^verbatim>\<open>DwSync\<close>
  and \<^verbatim>\<open>DwWait\<close>, whether the call returns or ends in \<^verbatim>\<open>Fail\<close>.
\<close>

theorem buffer_bound_invariant:
  "buffer_bounded (startup a)
   \<and> (buffer_bounded p \<longrightarrow>
        buffer_bounded (final (DwSend p out))
      \<and> buffer_bounded (final (DwFlush p))
      \<and> buffer_bounded (final (DwReceive p inb inlen))
      \<and> buffer_bounded (final (DwSync p))
      \<and> buffer_bounded (final (DwWait p)))"
proof (intro conjI impI)
  show "buffer_bounded (startup a)"
    by (simp add: startup_def buffer_bounded_def)
next
  assume b: "buffer_bounded p"
  show "buffer_bounded (final (DwSend p out))"
    using b by (rule DwSend_bounded)
  show "buffer_bounded (final (DwFlush p))"
    using b by (simp add: DwFlush_def dwBufferFlush_bounded)
  show "buffer_bounded (final (DwWait p))"
    using b by (simp add: DwWait_def dwBufferFlush_bounded)
  show "buffer_bounded (final (DwReceive p inb inlen))"
    using b dwBufferFlush_bounded [OF b, of "0x14"]
    by (simp add: buffer_bounded_def DwReceive_props)
  show "buffer_bounded (final (DwSync p))"
    using dwBufferFlush_bounded [OF b, of "0x24"]
    by (simp add: buffer_bounded_def DwSync_props)
qed

theorem buffer_bound_invariant_witness:
  "OutBufLength (startup willing_adapter) = 0
   \<and> buffer_bounded (startup willing_adapter)
   \<and> buffer_bounded (final (DwSend (startup willing_adapter) (replicate 300 7)))
   \<and> buffer_bounded (final (DwFlush (startup willing_adapter)))
   \<and> buffer_bounded (final (DwReceive (startup willing_adapter) [0, 0] 2))
   \<and> buffer_bounded (final (DwSync (startup willing_adapter)))
   \<and> buffer_bounded (final (DwWait (startup willing_adapter)))"
  using buffer_bound_invariant [of willing_adapter "startup willing_adapter" "replicate 300 7" "[0, 0]" 2]
  by (simp add: startup_def)

subsection \<open>Chunking\<close>

text \<open>
  Sending 256 bytes from an empty buffer to a willing adapter makes one transport, not
  \<open>256 div 128 = 2\<close>, and leaves 128 bytes buffered, not \<open>256 mod 128 = 0\<close>.
\<close>

theorem DwSend_multiple_of_128_counterexample:
  "\<exists>p'. DwSend (startup willing_adapter) (replicate 256 0) = Returned () p'
        \<and> sent p' = [(4, replicate 128 0)]
        \<and> length (sent p') \<noteq> 256 div 128
        \<and> OutBufLength p' = 128
        \<and> OutBufLength p' \<noteq> 256 mod 128"
  apply (subst DwSend.simps)
  apply (simp add: startup_def willing_adapter_def Let_def memcpy_at_def on_link_def dwUSBSendBytes_accepted)
  apply (subst DwSend.simps)
  apply (simp add: memcpy_at_def sent_def)
  done

text \<open>
  Claim C4, as amended. Starting from an empty buffer, a \<^verbatim>\<open>DwSend\<close> of \<open>N\<close> bytes
  with \<open>N \<le> 128\<close> always returns, calls no transport and leaves the \<open>N\<close> bytes
  buffered. For any \<open>N\<close>, when it returns it has made exactly \<open>(N - 1) div 128\<close>
  transports, each with state 4 and 128 bytes, and left \<open>N - 128 * ((N - 1) div 128)\<close>
  bytes buffered, between 1 and 128 when \<open>N > 0\<close>; the transports followed by the
  buffer are the bytes sent, in order.
\<close>

theorem DwSend_chunking:
  assumes "OutBufLength p = 0" and "length (OutBufBytes p) = 128"
  shows "(length out \<le> 128 \<longrightarrow>
            (\<exists>p'. DwSend p out = Returned () p' \<and> sent p' = sent p \<and> buffered p' = out
                 \<and> OutBufLength p' = int (length out)))
       \<and> (\<forall>p'. DwSend p out = Returned () p' \<longrightarrow>
            (\<exists>ts. sent p' = sent p @ ts
                 \<and> length ts = (length out - 1) div 128
                 \<and> (\<forall>t\<in>set ts. fst t = 4 \<and> length (snd t) = 128)
                 \<and> concat (map snd ts) @ buffered p' = out
                 \<and> OutBufLength p' = int (length out) - 128 * int ((length out - 1) div 128)
                 \<and> (out \<noteq> [] \<longrightarrow> 1 \<le> OutBufLength p' \<and> OutBufLength p' \<le> 128)))"
proof -
  have ok: "buffer_ok p"
    using assms by (simp add: buffer_ok_def buffer_bounded_def)
  have bp: "buffered p = []"
    using assms by (simp add: buffered_def)
  have small: "\<exists>p'. DwSend p out = Returned () p' \<and> sent p' = sent p \<and> buffered p' = out
                 \<and> OutBufLength p' = int (length out)" if "length out \<le> 128"
  proof -
    define p' where "p' = p\<lparr>OutBufBytes :=
        memcpy_at (OutBufBytes p) (nat (OutBufLength p)) out (length out),
      OutBufLength := OutBufLength p + int (length out)\<rparr>"
    have "DwSend p out = Returned () p'"
      using that assms by (simp add: DwSend_fits p'_def)
    moreover have "buffered p' = out"
      using push_buffered [OF ok, of out] that assms bp by (simp add: p'_def buffered_def)
    ultimately show ?thesis
      using assms by (intro exI [of _ p']) (simp add: p'_def sent_def)
  qed
  have any: "\<exists>ts. sent p' = sent p @ ts
                 \<and> length ts = (length out - 1) div 128
                 \<and> (\<forall>t\<in>set ts. fst t = 4 \<and> length (snd t) = 128)
                 \<and> concat (map snd ts) @ buffered p' = out
                 \<and> OutBufLength p' = int (length out) - 128 * int ((length out - 1) div 128)
                 \<and> (out \<noteq> [] \<longrightarrow> 1 \<le> OutBufLength p' \<and> OutBufLength p' \<le> 128)"
    if r: "DwSend p out = Returned () p'" for p'
  proof -
    from DwSend_residue [OF ok r] obtain ts where ts: "sent p' = sent p @ ts"
      "length ts = (nat (OutBufLength p) + length out - 1) div 128"
      "\<forall>t\<in>set ts. fst t = 4 \<and> length (snd t) = 128"
      "concat (map snd ts) @ buffered p' = buffered p @ out"
      "buffer_ok p'"
      "OutBufLength p' = OutBufLength p + int (length out)
               - 128 * int ((nat (OutBufLength p) + length out - 1) div 128)"
      by blast
    have nonempty: "1 \<le> OutBufLength p' \<and> OutBufLength p' \<le> 128" if "out \<noteq> []"
    proof -
      have "length out > 0"
        using that by simp
      then have "128 * ((length out - 1) div 128) \<le> length out - 1" "length out - 1 < length out"
        by simp_all
      then have "int (length out) - 128 * int ((length out - 1) div 128) \<ge> 1"
        by linarith
      then show ?thesis
        using ts(5,6) assms by (simp add: buffer_ok_def buffer_bounded_def)
    qed
    show ?thesis
      using ts nonempty assms bp by (intro exI [of _ ts]) simp
  qed
  show ?thesis
    using small any by blast
qed

theorem DwSend_chunking_witness:
  "OutBufLength (startup willing_adapter) = 0
   \<and> length (OutBufBytes (startup willing_adapter)) = 128
   \<and> (\<exists>p'. DwSend (startup willing_adapter) (replicate 300 7) = Returned () p'
          \<and> length (sent p') = 2 \<and> OutBufLength p' = 44)"
proof -
  have h: "OutBufLength (startup willing_adapter) = 0"
      "length (OutBufBytes (startup willing_adapter)) = 128"
    by (simp_all add: startup_def)
  obtain p' where r: "DwSend (startup willing_adapter) (replicate 300 7) = Returned () p'"
    using willing_send_300 by blast
  have "sent (startup willing_adapter) = []"
    by (simp add: sent_def startup_def willing_adapter_def)
  then have "length (sent p') = 2 \<and> OutBufLength p' = 44"
    using DwSend_chunking [OF h, of "replicate 300 7"] r by auto
  then show ?thesis
    using h r by simp
qed

subsection \<open>A read is sent with a byte\<close>

text \<open>
  Claim C6. With the buffer within its bounds: flushing an empty buffer with state 0x14
  returns at once and changes nothing; if every 0x14 transport made so far carried a
  byte, so does every one made by \<^verbatim>\<open>DwSend\<close>, \<^verbatim>\<open>DwFlush\<close>, \<^verbatim>\<open>DwReceive\<close>,
  \<^verbatim>\<open>DwSync\<close> and \<^verbatim>\<open>DwWait\<close>; and a \<^verbatim>\<open>DwSend\<close> of at least one byte that returns
  leaves the buffer non-empty, so that the \<^verbatim>\<open>DwReceive\<close> that follows makes exactly one
  0x14 transport, carrying the buffered bytes.
\<close>

theorem read_carries_outbound_byte:
  assumes "buffer_ok p"
  shows "(OutBufLength p = 0 \<longrightarrow> dwBufferFlush p 0x14 = Returned () p)
       \<and> (fed (sent p) \<longrightarrow>
            fed (sent (final (DwSend p out)))
          \<and> fed (sent (final (DwFlush p)))
          \<and> fed (sent (final (DwReceive p inb inlen)))
          \<and> fed (sent (final (DwSync p)))
          \<and> fed (sent (final (DwWait p))))
       \<and> (\<forall>p'. out \<noteq> [] \<and> DwSend p out = Returned () p' \<longrightarrow>
            1 \<le> OutBufLength p' \<and> buffered p' \<noteq> []
          \<and> (inlen \<le> 128 \<longrightarrow>
               sent (final (DwReceive p' inb inlen)) = sent p' @ [(0x14, buffered p')]))"
proof (intro conjI impI allI)
  show "dwBufferFlush p 0x14 = Returned () p" if "OutBufLength p = 0"
    using that by (simp add: dwBufferFlush_empty)
next
  have nonempty: "buffered p \<noteq> []" if "OutBufLength p > 0"
    using buffered_length [OF assms] that by auto
  assume f: "fed (sent p)"
  show "fed (sent (final (DwSend p out)))"
    using DwSend_effect [OF assms, of out] f fed_chunks by auto
  show "fed (sent (final (DwFlush p)))"
    using f nonempty by (simp add: DwFlush_def dwBufferFlush_sent)
  show "fed (sent (final (DwReceive p inb inlen)))"
    using f nonempty by (simp add: DwReceive_props)
  show "fed (sent (final (DwSync p)))"
    using f by (simp add: DwSync_props)
  show "fed (sent (final (DwWait p)))"
    using f by (simp add: DwWait_def dwBufferFlush_sent)
next
  fix p'
  assume a: "out \<noteq> [] \<and> DwSend p out = Returned () p'"
  from DwSend_residue [OF assms, of out p'] a obtain ts where
    "sent p' = sent p @ ts" and ok': "buffer_ok p'" and
    len: "OutBufLength p' = OutBufLength p + int (length out)
             - 128 * int ((nat (OutBufLength p) + length out - 1) div 128)"
    by blast
  have "nat (OutBufLength p) + length out > 0"
    using a by simp
  then have "128 * ((nat (OutBufLength p) + length out - 1) div 128) \<le> nat (OutBufLength p) + length out - 1"
    "nat (OutBufLength p) + length out - 1 < nat (OutBufLength p) + length out"
    by simp_all
  moreover have "0 \<le> OutBufLength p"
    using assms by (simp add: buffer_ok_def buffer_bounded_def)
  ultimately show pos: "1 \<le> OutBufLength p'"
    using len by linarith
  then show ne: "buffered p' \<noteq> []"
    using buffered_length [OF ok'] by auto
  show "sent (final (DwReceive p' inb inlen)) = sent p' @ [(0x14, buffered p')]" if "inlen \<le> 128"
    using that pos by (simp add: DwReceive_props)
qed

theorem read_carries_outbound_byte_witness:
  "buffer_ok (startup willing_adapter) \<and> OutBufLength (startup willing_adapter) = 0
   \<and> fed (sent (startup willing_adapter))
   \<and> dwBufferFlush (startup willing_adapter) 0x14 = Returned () (startup willing_adapter)
   \<and> fed (sent (final (DwSend (startup willing_adapter) (replicate 300 7))))
   \<and> fed (sent (final (DwReceive (startup willing_adapter) [0] 1)))
   \<and> (\<exists>p'. DwSend (startup willing_adapter) (replicate 300 7) = Returned () p'
          \<and> 1 \<le> OutBufLength p' \<and> buffered p' \<noteq> []
          \<and> sent (final (DwReceive p' [0] 1)) = sent p' @ [(0x14, buffered p')])"
proof -
  have h: "buffer_ok (startup willing_adapter)" "OutBufLength (startup willing_adapter) = 0"
      "fed (sent (startup willing_adapter))"
    by (simp_all add: startup_def buffer_ok_def buffer_bounded_def sent_def willing_adapter_def)
  obtain p' where r: "DwSend (startup willing_adapter) (replicate 300 7) = Returned () p'"
    using willing_send_300 by blast
  show ?thesis
    using read_carries_outbound_byte [OF h(1), of "replicate 300 7" "[0]" 1] h r by simp
qed

subsection \<open>Reading without inbound data\<close>

lemma overlay_Nil [simp]: "overlay [] old = old"
  by (simp add: overlay_def)

lemma usb_in_no_data:
  assumes "no_inbound_data a" "usb_control_msg_in a n = ((st, d), a')"
  shows "d = [] \<and> no_inbound_data a'"
proof -
  have here: "usb_in_reply a (usb_ins a) \<in> range InError \<or> usb_in_reply a (usb_ins a) = InData []"
    using assms(1) by (simp add: no_inbound_data_def)
  have same: "usb_in_reply a' = usb_in_reply a"
    using assms(2) by (auto simp: usb_control_msg_in_def Let_def split: usb_in.splits)
  have "d = []"
    using here assms(2) by (auto simp: usb_control_msg_in_def Let_def split: usb_in.splits)
  moreover have "no_inbound_data a'"
    using assms(1) same by (simp add: no_inbound_data_def)
  ultimately show ?thesis
    by simp
qed

lemma receive_poll_no_data:
  "no_inbound_data a \<Longrightarrow> snd (fst (receive_poll a inb inlen tries status)) = inb"
proof (induction a inb inlen tries status rule: receive_poll.induct)
  case (1 a inb inlen tries status)
  show ?case
  proof (cases "tries < 50 \<and> status \<le> 0")
    case True
    obtain st d a' where u: "usb_control_msg_in a inlen = ((st, d), a')"
      by (cases "usb_control_msg_in a inlen") auto
    have d: "d = []" "no_inbound_data a'"
      using usb_in_no_data [OF 1(2) u] by simp_all
    have "snd (fst (receive_poll a' (overlay d inb) inlen (tries + 1) st)) = overlay d inb"
      using 1(1) [OF True u [symmetric] refl] d(2) by simp
    then show ?thesis
      using True u d by (subst receive_poll.simps) simp
  next
    case False
    then show ?thesis
      by (subst receive_poll.simps) auto
  qed
qed

lemma calm_no_inbound_data: "calm a a' \<Longrightarrow> no_inbound_data a \<Longrightarrow> no_inbound_data a'"
  by (simp add: calm_def no_inbound_data_def)

lemma DwReceive_no_data:
  assumes "no_inbound_data (link p)" "DwReceive p inb inlen = Returned (status, buf) p'"
  shows "buf = inb"
proof -
  from assms(2) obtain u p1 where f: "dwBufferFlush p 0x14 = Returned u p1"
    and r: "receive_poll (link p1) inb (nat inlen) 0 0 = ((status, buf), link p')"
    by (cases "dwBufferFlush p 0x14")
      (auto simp: DwReceive_def split: if_splits prod.splits)
  have "calm (link p) (link p1)"
    using dwBufferFlush_calm [of p "0x14"] f by simp
  then have "no_inbound_data (link p1)"
    using assms(1) by (rule calm_no_inbound_data)
  then show ?thesis
    using receive_poll_no_data [of "link p1" inb "nat inlen" 0 0] r by simp
qed

lemma DwReceive_returns:
  assumes "dwBufferFlush p 0x14 = Returned u p1" "inlen \<le> 128"
  shows "\<exists>r p'. DwReceive p inb inlen = Returned r p'"
  using assms by (simp add: DwReceive_def split: prod.splits)

text \<open>
  Claim C10. \<^verbatim>\<open>DwReadByte\<close> and \<^verbatim>\<open>DwReadWord\<close> start from zeroed buffers and ignore
  the status of \<^verbatim>\<open>DwReceive\<close>. So in a run where no IN transfer delivers a byte, each
  returns 0 whenever it returns, and it returns whenever the flush that precedes the
  read does (for one, when the buffer is empty).
\<close>

theorem reads_default_to_zero:
  assumes "no_inbound_data (link p)"
  shows "(\<forall>v p'. DwReadByte p = Returned v p' \<longrightarrow> v = 0)
       \<and> (\<forall>v p'. DwReadWord p = Returned v p' \<longrightarrow> v = 0)
       \<and> ((\<exists>u p1. dwBufferFlush p 0x14 = Returned u p1) \<longrightarrow>
            (\<exists>p'. DwReadByte p = Returned 0 p') \<and> (\<exists>p'. DwReadWord p = Returned 0 p'))"
proof -
  have byte: "v = 0" if "DwReadByte p = Returned v p'" for v p'
  proof -
    from that obtain status buf p1 where r: "DwReceive p [0] 1 = Returned (status, buf) p1"
      and v: "v = uint (buf ! 0)"
      by (cases "DwReceive p [0] 1") (auto simp: DwReadByte_def split: prod.splits)
    show ?thesis
      using DwReceive_no_data [OF assms r] v by simp
  qed
  have word: "v = 0" if "DwReadWord p = Returned v p'" for v p'
  proof -
    from that obtain status buf p1 where r: "DwReceive p [0, 0] 2 = Returned (status, buf) p1"
      and v: "v = push_bit 8 (uint (buf ! 0)) OR uint (buf ! 1)"
      by (cases "DwReceive p [0, 0] 2") (auto simp: DwReadWord_def split: prod.splits)
    show ?thesis
      using DwReceive_no_data [OF assms r] v by simp
  qed
  have ret: "(\<exists>p'. DwReadByte p = Returned 0 p') \<and> (\<exists>p'. DwReadWord p = Returned 0 p')"
    if fl: "dwBufferFlush p 0x14 = Returned u p1" for u p1
  proof -
    obtain r1 p1' where r1: "DwReceive p [0] 1 = Returned r1 p1'"
      using DwReceive_returns [OF fl, of 1 "[0]"] by auto
    obtain r2 p2' where r2: "DwReceive p [0, 0] 2 = Returned r2 p2'"
      using DwReceive_returns [OF fl, of 2 "[0, 0]"] by auto
    have "\<exists>v. DwReadByte p = Returned v p1'"
      using r1 by (simp add: DwReadByte_def split: prod.splits)
    moreover have "\<exists>v. DwReadWord p = Returned v p2'"
      using r2 by (simp add: DwReadWord_def split: prod.splits)
    ultimately show ?thesis
      using byte word by blast
  qed
  show ?thesis
    using byte word ret by blast
qed

theorem reads_default_to_zero_witness:
  "no_inbound_data (link (startup willing_adapter))
   \<and> (\<exists>p'. DwReadByte (startup willing_adapter) = Returned 0 p')
   \<and> (\<exists>p'. DwReadWord (startup willing_adapter) = Returned 0 p')"
proof -
  have h: "no_inbound_data (link (startup willing_adapter))"
    by (simp add: no_inbound_data_def startup_def willing_adapter_def)
  have "dwBufferFlush (startup willing_adapter) 0x14 = Returned () (startup willing_adapter)"
    by (simp add: dwBufferFlush_empty startup_def)
  then show ?thesis
    using reads_default_to_zero [OF h] h by blast
qed

subsection \<open>The encoder on a buffer with room\<close>

lemma DwSend_push:
  "OutBufLength p + int (length out) \<le> 128 \<Longrightarrow> DwSend p out = Returned () (push p out)"
  by (simp add: DwSend_fits push_def)

lemma push_simps [simp]:
  "OutBufLength (push p out) = OutBufLength p + int (length out)"
  "link (push p out) = link p"
  "sent (push p out) = sent p"
  by (simp_all add: push_def sent_def)

lemma push_ok:
  assumes "buffer_ok p" "OutBufLength p + int (length out) \<le> 128"
  shows "buffer_ok (push p out)" and "buffered (push p out) = buffered p @ out"
proof -
  have "nat (OutBufLength p) + length out \<le> 128"
    using assms unfolding buffer_ok_def buffer_bounded_def by linarith
  then show "buffer_ok (push p out)"
    using assms by (simp add: push_def buffer_ok_def buffer_bounded_def memcpy_at_length)
  show "buffered (push p out) = buffered p @ out"
    using push_buffered [OF assms] by (simp add: push_def buffered_def)
qed

lemma on_pipe_frame [simp]:
  "R (final (on_pipe f s)) = R s"
  "PC (final (on_pipe f s)) = PC s"
  "BP (final (on_pipe f s)) = BP s"
  "TimerEnable (final (on_pipe f s)) = TimerEnable s"
  "FlashSize (final (on_pipe f s)) = FlashSize s"
  "DWDRreg (final (on_pipe f s)) = DWDRreg s"
  "DWDRaddr (final (on_pipe f s)) = DWDRaddr s"
  "pipe (final (on_pipe f s)) = final (f (pipe s))"
  by (simp_all add: on_pipe_def split: outcome.splits)

lemma on_pipe_final: "final (on_pipe f s) = s\<lparr>pipe := final (f (pipe s))\<rparr>"
  by (simp add: on_pipe_def split: outcome.splits)

lemma same_registers_refl [simp]: "same_registers s s"
  by (simp add: same_registers_def)

lemma same_registers_trans: "same_registers s s' \<Longrightarrow> same_registers s' s'' \<Longrightarrow> same_registers s s''"
  by (cases s, cases s', cases s'') (simp add: same_registers_def)

lemma same_registers_on_pipe [simp]: "same_registers s (final (on_pipe f s))"
  by (simp add: same_registers_def on_pipe_final)

lemma same_registers_fields:
  assumes "same_registers s s'"
  shows "R s' = R s" "PC s' = PC s" "BP s' = BP s" "TimerEnable s' = TimerEnable s"
    "FlashSize s' = FlashSize s" "DWDRreg s' = DWDRreg s" "DWDRaddr s' = DWDRaddr s"
  using assms by (cases s, cases s', simp add: same_registers_def)+

lemma same_registers_DwSetReg: "same_registers s (final (DwSetReg s reg val))"
  by (simp add: DwSetReg_def)

lemma same_registers_DwSetRegs_each: "same_registers s (final (DwSetRegs_each s first regs))"
proof (induction regs arbitrary: s first)
  case Nil
  show ?case by simp
next
  case (Cons r regs)
  show ?case
  proof (cases "DwSetReg s first r")
    case (Failed e s1)
    then show ?thesis
      using same_registers_DwSetReg [of s first r] by simp
  next
    case (Returned u s1)
    then have "same_registers s s1"
      using same_registers_DwSetReg [of s first r] by simp
    then show ?thesis
      using Returned Cons.IH [of s1 "first + 1"] by (auto intro: same_registers_trans)
  qed
qed

lemma same_registers_DwSetRegs: "same_registers s (final (DwSetRegs s first regs))"
  by (simp add: DwSetRegs_def same_registers_DwSetRegs_each)

lemma push_push:
  assumes "buffer_ok p" "OutBufLength p + int (length x) + int (length y) \<le> 128"
  shows "push (push p x) y = push p (x @ y)"
proof -
  define n where "n = nat (OutBufLength p)"
  have n: "n + length x + length y \<le> 128" "length (OutBufBytes p) = 128"
      "nat (OutBufLength p + int (length x)) = n + length x"
    using assms unfolding buffer_ok_def buffer_bounded_def n_def by linarith+
  have "memcpy_at (memcpy_at (OutBufBytes p) n x (length x)) (n + length x) y (length y)
          = memcpy_at (OutBufBytes p) n (x @ y) (length x + length y)"
    using n by (simp add: memcpy_at_def ac_simps)
  then show ?thesis
    using n by (simp add: push_def n_def [symmetric] ac_simps)
qed

lemma DwSetRegs_28:
  assumes "buffer_ok (pipe s)" "OutBufLength (pipe s) + 14 \<le> 128"
  shows "DwSetRegs s 28 [a, b, c, d] =
           Returned () (s\<lparr>pipe := push (pipe s)
              [0xD0, 0x10, 0x1C, 0xD1, 0x10, 0x20, 0x66, 0xC2, 0x05, 0x20, a, b, c, d]\<rparr>)"
proof -
  let ?p = "pipe s"
  have 1: "DwSetPC ?p 28 = Returned () (push ?p [0xD0, 0x10, 0x1C])"
    using assms(2) by (simp add: DwSetPC_def DwSend_push hi_def lo_def)
  have 2: "DwSetBP (push ?p [0xD0, 0x10, 0x1C]) 32
             = Returned () (push ?p [0xD0, 0x10, 0x1C, 0xD1, 0x10, 0x20])"
    using assms by (simp add: DwSetBP_def DwSend_push hi_def lo_def push_push)
  have 3: "DwSend (push ?p [0xD0, 0x10, 0x1C, 0xD1, 0x10, 0x20]) [0x66, 0xC2, 0x05, 0x20]
             = Returned () (push ?p [0xD0, 0x10, 0x1C, 0xD1, 0x10, 0x20, 0x66, 0xC2, 0x05, 0x20])"
    using assms by (simp add: DwSend_push push_push)
  have 4: "DwSend (push ?p [0xD0, 0x10, 0x1C, 0xD1, 0x10, 0x20, 0x66, 0xC2, 0x05, 0x20]) [a, b, c, d]
             = Returned () (push ?p [0xD0, 0x10, 0x1C, 0xD1, 0x10, 0x20, 0x66, 0xC2, 0x05, 0x20, a, b, c, d])"
    using assms by (simp add: DwSend_push push_push)
  show ?thesis
    by (simp add: DwSetRegs_def on_pipe_def 1 2 3 4)
qed

lemma example_session_ok:
  "buffer_ok (pipe example_session)" "OutBufLength (pipe example_session) = 0"
  "length (OutBufBytes (pipe example_session)) = 128" "length (R example_session) = 32"
  "sent (pipe example_session) = []" "buffered (pipe example_session) = []"
  "take 4 (R example_session) = [0, 1, 2, 3]"
  "take 4 (drop 28 (R example_session)) = [28, 29, 30, 31]"
  by (simp_all add: example_session_def startup_def buffer_ok_def buffer_bounded_def sent_def
      willing_adapter_def buffered_def upt_rec drop_map take_map)

subsection \<open>Setting registers and the shadow\<close>

text \<open>
  In the example session the shadow of r28 to r31 holds 28, 29, 30, 31; after
  \<^verbatim>\<open>DwSetRegs(28, [AA, BB, CC, DD], 4)\<close> it still does.
\<close>

theorem DwSetRegs_28_shadow_counterexample:
  "\<exists>s'. DwSetRegs example_session 28 [0xAA, 0xBB, 0xCC, 0xDD] = Returned () s'
        \<and> take 4 (drop 28 (R s')) = [28, 29, 30, 31]
        \<and> take 4 (drop 28 (R s')) \<noteq> [0xAA, 0xBB, 0xCC, 0xDD]"
  using example_session_ok by (simp add: DwSetRegs_28)

text \<open>
  Claim C8, as amended. \<^verbatim>\<open>DwSetRegs\<close> never changes the shadow registers \<^verbatim>\<open>R\<close>,
  whatever the first register and the bytes. Called with register 28 and four bytes
  \<open>a, b, c, d\<close> while the buffer has room for 14 bytes, it returns having made no
  transport and appended \<^verbatim>\<open>D0 10 1C D1 10 20 66 C2 05 20 a b c d\<close> to the buffer.
\<close>

theorem DwSetRegs_leaves_shadow:
  "R (final (DwSetRegs s first regs)) = R s
   \<and> (buffer_ok (pipe s) \<and> OutBufLength (pipe s) + 14 \<le> 128 \<longrightarrow>
        (\<exists>s'. DwSetRegs s 28 [a, b, c, d] = Returned () s'
             \<and> R s' = R s
             \<and> sent (pipe s') = sent (pipe s)
             \<and> buffered (pipe s') =
                 buffered (pipe s) @ [0xD0, 0x10, 0x1C, 0xD1, 0x10, 0x20, 0x66, 0xC2, 0x05, 0x20, a, b, c, d]))"
proof -
  have "R (final (DwSetRegs s first regs)) = R s"
    using same_registers_DwSetRegs [of s first regs] by (simp add: same_registers_fields)
  moreover have "\<exists>s'. DwSetRegs s 28 [a, b, c, d] = Returned () s'
             \<and> R s' = R s
             \<and> sent (pipe s') = sent (pipe s)
             \<and> buffered (pipe s') =
                 buffered (pipe s) @ [0xD0, 0x10, 0x1C, 0xD1, 0x10, 0x20, 0x66, 0xC2, 0x05, 0x20, a, b, c, d]"
    if "buffer_ok (pipe s)" "OutBufLength (pipe s) + 14 \<le> 128"
    using that by (simp add: DwSetRegs_28 push_ok)
  ultimately show ?thesis
    by blast
qed

theorem DwSetRegs_leaves_shadow_witness:
  "buffer_ok (pipe example_session) \<and> OutBufLength (pipe example_session) + 14 \<le> 128
   \<and> R (final (DwSetRegs example_session 30 [0x60, 0x00])) = R example_session
   \<and> (\<exists>s'. DwSetRegs example_session 28 [0xAA, 0xBB, 0xCC, 0xDD] = Returned () s'
          \<and> R s' = R example_session
          \<and> sent (pipe s') = []
          \<and> buffered (pipe s') =
               [0xD0, 0x10, 0x1C, 0xD1, 0x10, 0x20, 0x66, 0xC2, 0x05, 0x20, 0xAA, 0xBB, 0xCC, 0xDD])"
  using DwSetRegs_leaves_shadow [of example_session 30 "[0x60, 0x00]" "0xAA" "0xBB" "0xCC" "0xDD"]
    example_session_ok
  by simp

lemma take_4: "4 \<le> length xs \<Longrightarrow> take 4 xs = [xs ! 0, xs ! 1, xs ! 2, xs ! 3]"
  by (auto simp: numeral_eq_Suc Suc_le_length_iff)

lemma DwGo_run:
  assumes "PC s = 0x0100" "BP s = 0x0200" "TimerEnable s"
    and "OutBufLength (pipe s) = 0" "length (OutBufBytes (pipe s)) = 128" "length (R s) = 32"
  shows "DwGo s = on_pipe (\<lambda>p. dwBufferFlush p 0x0C) (s\<lparr>pipe := push (pipe s) (go_bytes (take 4 (R s)))\<rparr>)"
proof -
  let ?p = "pipe s"
  have ok: "buffer_ok ?p"
    using assms by (simp add: buffer_ok_def buffer_bounded_def)
  obtain a b c d where regs: "take 4 (R s) = [a, b, c, d]"
    using take_4 [of "R s"] assms by simp
  define B14 :: "u8 list" where "B14 = [0xD0, 0x10, 0x1C, 0xD1, 0x10, 0x20, 0x66, 0xC2, 0x05, 0x20, a, b, c, d]"
  have 0: "DwSetRegs s 28 (take 4 (R s)) = Returned () (s\<lparr>pipe := push ?p B14\<rparr>)"
    using DwSetRegs_28 [OF ok, of a b c d] assms by (simp add: regs B14_def)
  have 1: "DwSetPC (push ?p B14) 128 = Returned () (push ?p (B14 @ [0xD0, 0x10, 0x80]))"
    using assms ok by (simp add: DwSetPC_def DwSend_push hi_def lo_def push_push B14_def)
  have 2: "DwSetBP (push ?p (B14 @ [0xD0, 0x10, 0x80])) 256
             = Returned () (push ?p (B14 @ [0xD0, 0x10, 0x80, 0xD1, 0x11, 0x00]))"
    using assms ok by (simp add: DwSetBP_def DwSend_push hi_def lo_def push_push B14_def)
  have 3: "DwSend (push ?p (B14 @ [0xD0, 0x10, 0x80, 0xD1, 0x11, 0x00])) [0x41]
             = Returned () (push ?p (B14 @ [0xD0, 0x10, 0x80, 0xD1, 0x11, 0x00, 0x41]))"
    using assms ok by (simp add: DwSend_push push_push B14_def)
  have 4: "DwSend (push ?p (B14 @ [0xD0, 0x10, 0x80, 0xD1, 0x11, 0x00, 0x41])) [0x30]
             = Returned () (push ?p (B14 @ [0xD0, 0x10, 0x80, 0xD1, 0x11, 0x00, 0x41, 0x30]))"
    using assms ok by (simp add: DwSend_push push_push B14_def)
  have g: "go_bytes (take 4 (R s)) = B14 @ [0xD0, 0x10, 0x80, 0xD1, 0x11, 0x00, 0x41, 0x30]"
    by (simp add: go_bytes_def regs B14_def)
  show ?thesis
    using assms(1-3)
    by (simp add: DwGo_def 0 on_pipe_def c_div_def 1 2 3 4 g DwWait_def cong: outcome.case_cong)
qed

lemma DwGo_sent:
  assumes "PC s = 0x0100" "BP s = 0x0200" "TimerEnable s"
    and "OutBufLength (pipe s) = 0" "length (OutBufBytes (pipe s)) = 128" "length (R s) = 32"
  shows "sent (pipe (final (DwGo s))) = sent (pipe s) @ [(0x0C, go_bytes (take 4 (R s)))]"
    and "same_registers s (final (DwGo s))"
    and "DwGo s = Returned u s' \<Longrightarrow> OutBufLength (pipe s') = 0"
proof -
  let ?q = "push (pipe s) (go_bytes (take 4 (R s)))"
  have ok: "buffer_ok (pipe s)"
    using assms by (simp add: buffer_ok_def buffer_bounded_def)
  have len: "length (go_bytes (take 4 (R s))) = 22"
    using assms by (simp add: go_bytes_def)
  have q: "buffered ?q = go_bytes (take 4 (R s))" "OutBufLength ?q = 22"
    using push_ok(2) [OF ok, of "go_bytes (take 4 (R s))"] assms len by (simp_all add: buffered_def)
  show "sent (pipe (final (DwGo s))) = sent (pipe s) @ [(0x0C, go_bytes (take 4 (R s)))]"
    using len assms(4) by (simp add: DwGo_run [OF assms] dwBufferFlush_sent q)
  show "same_registers s (final (DwGo s))"
    by (simp add: DwGo_run [OF assms] same_registers_def on_pipe_final)
  show "OutBufLength (pipe s') = 0" if "DwGo s = Returned u s'"
    using that dwBufferFlush_Returned [of ?q "0x0C"] q
    by (auto simp: DwGo_run [OF assms] on_pipe_def split: outcome.splits)
qed

subsection \<open>Go\<close>

text \<open>
  In the example session (PC = 0x0100, BP = 0x0200, timers enabled, empty buffer)
  \<^verbatim>\<open>DwGo\<close> makes one transport with state 0x0C, of 22 bytes: the ten bytes that open a
  register write at r28, four register bytes, and then \<^verbatim>\<open>D0 10 80 D1 11 00 41 30\<close>.
  The PC is set with \<^verbatim>\<open>D0 10 80\<close>, not \<^verbatim>\<open>D0 11 80\<close>.
\<close>

theorem DwGo_trace_counterexample:
  "length (sent (pipe (final (DwGo example_session)))) = 1
   \<and> fst (hd (sent (pipe (final (DwGo example_session))))) = 0x0C
   \<and> length (snd (hd (sent (pipe (final (DwGo example_session)))))) = 22
   \<and> take 10 (snd (hd (sent (pipe (final (DwGo example_session))))))
       = [0xD0, 0x10, 0x1C, 0xD1, 0x10, 0x20, 0x66, 0xC2, 0x05, 0x20]
   \<and> drop 14 (snd (hd (sent (pipe (final (DwGo example_session))))))
       = [0xD0, 0x10, 0x80, 0xD1, 0x11, 0x00, 0x41, 0x30]
   \<and> take 3 (drop 14 (snd (hd (sent (pipe (final (DwGo example_session)))))))
       \<noteq> [0xD0, 0x11, 0x80]"
proof -
  have "PC example_session = 0x0100" "BP example_session = 0x0200" "TimerEnable example_session"
    by (simp_all add: example_session_def)
  from DwGo_sent(1) [OF this example_session_ok(2,3,4)] show ?thesis
    by (simp add: example_session_ok go_bytes_def)
qed

text \<open>
  Claim C1, as amended. With PC = 0x0100, BP = 0x0200, timers enabled and an empty
  buffer, there are four register bytes such that \<^verbatim>\<open>DwSetRegs\<close> of them at r28 emits
  \<^verbatim>\<open>D0 10 1C D1 10 20 66 C2 05 20\<close> and the four bytes, and \<^verbatim>\<open>DwGo\<close> makes exactly one
  transport, with state 0x0C, carrying that encoding, then \<^verbatim>\<open>D0 10 80\<close>,
  \<^verbatim>\<open>D1 11 00\<close>, \<^verbatim>\<open>41\<close> and \<^verbatim>\<open>30\<close>; when \<^verbatim>\<open>DwGo\<close> returns the buffer is empty.
  Which entries of \<^verbatim>\<open>R\<close> the four bytes are is not part of the statement.
\<close>

theorem DwGo_trace:
  assumes "PC s = 0x0100" "BP s = 0x0200" "TimerEnable s"
    and "OutBufLength (pipe s) = 0" "length (OutBufBytes (pipe s)) = 128" "length (R s) = 32"
  shows "\<exists>regs. length regs = 4
       \<and> (\<exists>s1. DwSetRegs s 28 regs = Returned () s1
            \<and> buffered (pipe s1) =
                [0xD0, 0x10, 0x1C, 0xD1, 0x10, 0x20, 0x66, 0xC2, 0x05, 0x20] @ regs)
       \<and> sent (pipe (final (DwGo s))) =
           sent (pipe s) @
             [(0x0C, [0xD0, 0x10, 0x1C, 0xD1, 0x10, 0x20, 0x66, 0xC2, 0x05, 0x20] @ regs
                       @ [0xD0, 0x10, 0x80] @ [0xD1, 0x11, 0x00] @ [0x41] @ [0x30])]
       \<and> (\<forall>s'. DwGo s = Returned () s' \<longrightarrow> OutBufLength (pipe s') = 0)"
proof -
  have ok: "buffer_ok (pipe s)" "buffered (pipe s) = []"
    using assms by (simp_all add: buffer_ok_def buffer_bounded_def buffered_def)
  obtain a b c d where regs: "take 4 (R s) = [a, b, c, d]"
    using take_4 [of "R s"] assms by simp
  have "\<exists>s1. DwSetRegs s 28 [a, b, c, d] = Returned () s1
            \<and> buffered (pipe s1) =
                [0xD0, 0x10, 0x1C, 0xD1, 0x10, 0x20, 0x66, 0xC2, 0x05, 0x20] @ [a, b, c, d]"
    using DwSetRegs_28 [OF ok(1), of a b c d] assms(4) ok by (simp add: push_ok)
  then show ?thesis
    using DwGo_sent [OF assms]
    by (intro exI [of _ "[a, b, c, d]"]) (simp add: go_bytes_def regs)
qed

theorem DwGo_trace_witness:
  "PC example_session = 0x0100 \<and> BP example_session = 0x0200 \<and> TimerEnable example_session
   \<and> OutBufLength (pipe example_session) = 0
   \<and> length (OutBufBytes (pipe example_session)) = 128 \<and> length (R example_session) = 32
   \<and> (\<exists>regs. length regs = 4
        \<and> sent (pipe (final (DwGo example_session))) =
            [(0x0C, [0xD0, 0x10, 0x1C, 0xD1, 0x10, 0x20, 0x66, 0xC2, 0x05, 0x20] @ regs
                      @ [0xD0, 0x10, 0x80, 0xD1, 0x11, 0x00, 0x41, 0x30])])"
proof -
  have h: "PC example_session = 0x0100" "BP example_session = 0x0200" "TimerEnable example_session"
    by (simp_all add: example_session_def)
  from DwGo_trace [OF h example_session_ok(2,3,4)] obtain regs :: "u8 list" where
    "length regs = 4"
    "sent (pipe (final (DwGo example_session))) =
           sent (pipe example_session) @
             [(0x0C, [0xD0, 0x10, 0x1C, 0xD1, 0x10, 0x20, 0x66, 0xC2, 0x05, 0x20] @ regs
                       @ [0xD0, 0x10, 0x80] @ [0xD1, 0x11, 0x00] @ [0x41] @ [0x30])]"
    by blast
  then show ?thesis
    using h by (simp add: example_session_ok)
qed

subsection \<open>Reconnect\<close>

lemma c_rem_nonneg: "0 \<le> a \<Longrightarrow> 0 < b \<Longrightarrow> c_rem a b = a mod b"
  by (simp add: c_rem_def c_div_def sgn_if minus_mult_div_eq_mod)

lemma c_rem_minus_2: "2 < b \<Longrightarrow> c_rem (- 2) b = - 2"
  by (simp add: c_rem_def c_div_def sgn_if)

lemma word_of_bytes: "push_bit 8 (uint (b0 :: u8)) OR uint (b1 :: u8) = 256 * uint b0 + uint b1"
proof -
  have "push_bit 8 (uint b0) AND uint b1 = 0"
  proof (rule bit_eqI)
    fix n
    have "\<not> bit (uint b1) n" if "8 \<le> n"
      using that by (simp add: bit_uint_iff)
    then show "bit (push_bit 8 (uint b0) AND uint b1) n = bit (0::int) n"
      by (auto simp: bit_and_iff bit_push_bit_iff)
  qed
  then have "push_bit 8 (uint b0) OR uint b1 = push_bit 8 (uint b0) + uint b1"
    by (simp add: disjunctive_add_eq_or)
  then show ?thesis
    by (simp add: push_bit_eq_mult)
qed

lemma length_overlay: "length d \<le> length old \<Longrightarrow> length (overlay d old) = length old"
  by (simp add: overlay_def)

lemma usb_in_length: "usb_control_msg_in a n = ((st, d), a') \<Longrightarrow> length d \<le> n"
  by (auto simp: usb_control_msg_in_def Let_def split: usb_in.splits)

lemma receive_poll_length:
  "length inb = inlen \<Longrightarrow> length (snd (fst (receive_poll a inb inlen tries status))) = inlen"
proof (induction a inb inlen tries status rule: receive_poll.induct)
  case (1 a inb inlen tries status)
  show ?case
  proof (cases "tries < 50 \<and> status \<le> 0")
    case True
    obtain st d a' where u: "usb_control_msg_in a inlen = ((st, d), a')"
      by (cases "usb_control_msg_in a inlen") auto
    have "length (overlay d inb) = inlen"
      using usb_in_length [OF u] 1(2) by (simp add: length_overlay)
    then have "length (snd (fst (receive_poll a' (overlay d inb) inlen (tries + 1) st))) = inlen"
      using 1(1) [OF True u [symmetric] refl] by simp
    then show ?thesis
      using True u by (subst receive_poll.simps) simp
  next
    case False
    then show ?thesis
      using 1(2) by (subst receive_poll.simps) auto
  qed
qed

lemma DwReceive_length:
  assumes "DwReceive p inb inlen = Returned (status, buf) p'" "int (length inb) = inlen"
  shows "length buf = length inb"
proof -
  from assms(1) obtain p1 :: pipeline where
    r: "receive_poll (link p1) inb (nat inlen) 0 0 = ((status, buf), link p')"
    by (cases "dwBufferFlush p 0x14")
      (auto simp: DwReceive_def split: if_splits prod.splits)
  show ?thesis
    using receive_poll_length [of inb "nat inlen" "link p1" 0 0] r assms(2) by auto
qed

lemma same_registers_DwGetRegs: "same_registers s (final (DwGetRegs s first regs count))"
  by (simp add: DwGetRegs_def)

lemma DwReadWord_value:
  assumes "DwReceive p [0, 0] 2 = Returned (status, [b0, b1]) p'"
  shows "DwReadWord p = Returned (256 * uint b0 + uint b1) p'"
  using assms by (simp add: DwReadWord_def word_of_bytes)

lemma DwReconnect_run:
  assumes "DwSend (pipe s) [0xF0] = Returned () p1"
    and "DwReceive p1 [0, 0] 2 = Returned (status, [b0, b1]) p2"
  shows "DwReconnect s =
           and_then
             (DwGetRegs (s\<lparr>pipe := p2, PC := c_rem (2 * (256 * uint b0 + uint b1 - 1)) (FlashSize s)\<rparr>)
                28 (take 4 (drop 28 (R s))) 4)
             (\<lambda>regs s3. Returned () (s3\<lparr>R := take 28 (R s3) @ regs @ drop 32 (R s3)\<rparr>))"
    and "PC (final (DwReconnect s)) = c_rem (2 * (256 * uint b0 + uint b1 - 1)) (FlashSize s)"
proof -
  define s2 where "s2 = s\<lparr>pipe := p2, PC := c_rem (2 * (256 * uint b0 + uint b1 - 1)) (FlashSize s)\<rparr>"
  show run: "DwReconnect s =
           and_then
             (DwGetRegs (s\<lparr>pipe := p2, PC := c_rem (2 * (256 * uint b0 + uint b1 - 1)) (FlashSize s)\<rparr>)
                28 (take 4 (drop 28 (R s))) 4)
             (\<lambda>regs s3. Returned () (s3\<lparr>R := take 28 (R s3) @ regs @ drop 32 (R s3)\<rparr>))"
    using assms(1) DwReadWord_value [OF assms(2)]
    by (simp add: DwReconnect_def on_pipe_def Let_def)
  have "PC (final (DwGetRegs s2 28 (take 4 (drop 28 (R s))) 4)) = PC s2"
    using same_registers_DwGetRegs [of s2 28 "take 4 (drop 28 (R s))" 4]
    by (simp add: same_registers_fields)
  then show "PC (final (DwReconnect s)) = c_rem (2 * (256 * uint b0 + uint b1 - 1)) (FlashSize s)"
    unfolding run s2_def [symmetric]
    by (cases "DwGetRegs s2 28 (take 4 (drop 28 (R s))) 4") (simp_all add: s2_def)
qed

lemma DwReceive_emptied:
  assumes "DwReceive p inb inlen = Returned r p'" "buffer_ok p"
  shows "buffer_ok p'" "OutBufLength p' = 0"
proof -
  from assms(1) have le: "inlen \<le> 128"
    by (auto simp: DwReceive_def split: if_splits)
  from assms(1) obtain u p1 where f: "dwBufferFlush p 0x14 = Returned u p1"
    by (cases "dwBufferFlush p 0x14") (auto simp: DwReceive_def split: if_splits)
  have l: "OutBufLength p' = OutBufLength p1" "OutBufBytes p' = OutBufBytes p"
    using DwReceive_props(1,2) [of p inb inlen] assms(1) f le by simp_all
  have "OutBufLength p1 = 0"
    using dwBufferFlush_Returned [OF f] assms(2) by (auto simp: buffer_ok_def buffer_bounded_def)
  then show "OutBufLength p' = 0" "buffer_ok p'"
    using l assms(2) by (simp_all add: buffer_ok_def buffer_bounded_def)
qed

lemma DwGetRegs_28:
  assumes "buffer_ok (pipe s)" "OutBufLength (pipe s) = 0"
  shows "sent (pipe (final (DwGetRegs s 28 regs 4))) =
           sent (pipe s) @ [(0x14, [0xD0, 0x10, 0x1C, 0xD1, 0x10, 0x20, 0x66, 0xC2, 0x01, 0x20])]"
proof -
  let ?p = "pipe s"
  let ?B = "[0xD0, 0x10, 0x1C, 0xD1, 0x10, 0x20, 0x66, 0xC2, 0x01, 0x20] :: u8 list"
  have 1: "DwSetPC ?p 28 = Returned () (push ?p [0xD0, 0x10, 0x1C])"
    using assms(2) by (simp add: DwSetPC_def DwSend_push hi_def lo_def)
  have 2: "DwSetBP (push ?p [0xD0, 0x10, 0x1C]) 32
             = Returned () (push ?p [0xD0, 0x10, 0x1C, 0xD1, 0x10, 0x20])"
    using assms by (simp add: DwSetBP_def DwSend_push hi_def lo_def push_push)
  have 3: "DwSend (push ?p [0xD0, 0x10, 0x1C, 0xD1, 0x10, 0x20]) [0x66, 0xC2, 0x01, 0x20]
             = Returned () (push ?p ?B)"
    using assms by (simp add: DwSend_push push_push)
  have run: "DwGetRegs s 28 regs 4 =
      on_pipe (\<lambda>p. and_then (DwReceive (push ?p ?B) regs 4) (\<lambda>(status, regs') p4. Returned regs' p4)) s"
    by (simp add: DwGetRegs_def on_pipe_def 1 2 3)
  have q: "buffered (push ?p ?B) = ?B" "OutBufLength (push ?p ?B) = 10"
    using push_ok(2) [OF assms(1), of ?B] assms(2) by (simp_all add: buffered_def)
  have fin: "final (and_then (DwReceive (push ?p ?B) regs 4) (\<lambda>(status, regs') p4. Returned regs' p4))
               = final (DwReceive (push ?p ?B) regs 4)"
    by (cases "DwReceive (push ?p ?B) regs 4") (auto split: prod.splits)
  show "sent (pipe (final (DwGetRegs s 28 regs 4))) = sent (pipe s) @ [(0x14, ?B)]"
    using assms(2) by (simp add: run fin DwReceive_props q)
qed

lemma DwGetRegs_Returned:
  assumes "DwGetRegs s first regs count = Returned regs' s'"
  shows "\<exists>p3 st p4. DwReceive p3 regs count = Returned (st, regs') p4"
proof -
  define pre where "pre =
    (if count = 1 then DwOut (pipe s) (word_of_int (DWDRreg s)) (word_of_int first)
     else and_then (DwSetPC (pipe s) (word_of_int first))
            (\<lambda>_ p1. and_then (DwSetBP p1 (word_of_int (first + count)))
               (\<lambda>_ p2. DwSend p2 [0x66, 0xC2, 1, 0x20])))"
  have run: "DwGetRegs s first regs count =
      on_pipe (\<lambda>p. and_then pre
        (\<lambda>_ p3. and_then (DwReceive p3 regs count) (\<lambda>(status, regs') p4. Returned regs' p4))) s"
    by (simp add: DwGetRegs_def pre_def on_pipe_def)
  show ?thesis
  proof (cases pre)
    case (Failed e p3)
    then show ?thesis
      using assms by (simp add: run on_pipe_def)
  next
    case (Returned u p3)
    then show ?thesis
      using assms
      by (cases "DwReceive p3 regs count") (auto simp: run on_pipe_def split: prod.splits)
  qed
qed

lemma DwGetRegs_28_run:
  assumes "buffer_ok (pipe s)" "OutBufLength (pipe s) = 0"
  shows "DwGetRegs s 28 regs 4 =
      on_pipe (\<lambda>p. and_then
        (DwReceive (push (pipe s) [0xD0, 0x10, 0x1C, 0xD1, 0x10, 0x20, 0x66, 0xC2, 0x01, 0x20]) regs 4)
        (\<lambda>(status, regs') p4. Returned regs' p4)) s"
proof -
  let ?p = "pipe s"
  let ?B = "[0xD0, 0x10, 0x1C, 0xD1, 0x10, 0x20, 0x66, 0xC2, 0x01, 0x20] :: u8 list"
  have 1: "DwSetPC ?p 28 = Returned () (push ?p [0xD0, 0x10, 0x1C])"
    using assms(2) by (simp add: DwSetPC_def DwSend_push hi_def lo_def)
  have 2: "DwSetBP (push ?p [0xD0, 0x10, 0x1C]) 32
             = Returned () (push ?p [0xD0, 0x10, 0x1C, 0xD1, 0x10, 0x20])"
    using assms by (simp add: DwSetBP_def DwSend_push hi_def lo_def push_push)
  have 3: "DwSend (push ?p [0xD0, 0x10, 0x1C, 0xD1, 0x10, 0x20]) [0x66, 0xC2, 0x01, 0x20]
             = Returned () (push ?p ?B)"
    using assms by (simp add: DwSend_push push_push)
  show ?thesis
    by (simp add: DwGetRegs_def on_pipe_def 1 2 3)
qed

lemma replicate_128: "replicate 128 (0::u8) = 0 # replicate 127 0"
  by (simp add: numeral_eq_Suc)

lemma answering_recv:
  "DwReceive (push (pipe answering_session) [0xF0]) [0, 0] 2 = Returned (2, [0x00, 0x81]) after_F0"
  by (simp add: DwReceive_def dwBufferFlush_def on_link_def dwUSBSendBytes_accepted push_def
      answering_session_def example_session_def startup_def answering_adapter_def willing_adapter_def
      receive_poll.simps [of _ _ _ 0] receive_poll.simps [of _ _ _ 1] usb_control_msg_in_def overlay_def
      after_F0_def memcpy_at_def replicate_128)

lemma answering_regs:
  "\<exists>p4. DwReceive (push after_F0 [0xD0, 0x10, 0x1C, 0xD1, 0x10, 0x20, 0x66, 0xC2, 0x01, 0x20])
           [28, 29, 30, 31] 4 = Returned (4, [0xAA, 0xBB, 0xCC, 0xDD]) p4"
  by (simp add: DwReceive_def dwBufferFlush_def on_link_def dwUSBSendBytes_accepted push_def
      answering_adapter_def willing_adapter_def
      receive_poll.simps [of _ _ _ 0] receive_poll.simps [of _ _ _ 1] usb_control_msg_in_def overlay_def
      after_F0_def)

lemma answering_session_facts:
  "OutBufLength (pipe answering_session) = 0"
  "length (OutBufBytes (pipe answering_session)) = 128"
  "FlashSize answering_session = 8192" "sent (pipe answering_session) = []"
  "R answering_session = R example_session"
  by (simp_all add: answering_session_def example_session_def startup_def sent_def
      answering_adapter_def willing_adapter_def)

lemma answering_send:
  "DwSend (pipe answering_session) [0xF0] = Returned () (push (pipe answering_session) [0xF0])"
  by (simp add: DwSend_push answering_session_facts)

lemma answering_reconnect:
  "\<exists>s'. DwReconnect answering_session = Returned () s'
     \<and> take 4 (drop 28 (R s')) = [0xAA, 0xBB, 0xCC, 0xDD]"
proof -
  define s2 where "s2 = answering_session\<lparr>pipe := after_F0,
    PC := c_rem 256 (FlashSize answering_session)\<rparr>"
  have ok: "buffer_ok (pipe s2)" "OutBufLength (pipe s2) = 0"
    by (simp_all add: s2_def after_F0_def buffer_ok_def buffer_bounded_def)
  obtain p4 where r: "DwReceive (push after_F0 [0xD0, 0x10, 0x1C, 0xD1, 0x10, 0x20, 0x66, 0xC2, 0x01, 0x20])
           [28, 29, 30, 31] 4 = Returned (4, [0xAA, 0xBB, 0xCC, 0xDD]) p4"
    using answering_regs by blast
  have regs: "take 4 (drop 28 (R answering_session)) = [28, 29, 30, 31]"
    by (simp add: answering_session_facts example_session_ok)
  have ps2: "pipe s2 = after_F0"
    by (simp add: s2_def)
  have g: "DwGetRegs s2 28 [28, 29, 30, 31] 4 = Returned [0xAA, 0xBB, 0xCC, 0xDD] (s2\<lparr>pipe := p4\<rparr>)"
    using r by (simp add: DwGetRegs_28_run [OF ok] on_pipe_def ps2)
  have len: "length (R answering_session) = 32"
    by (simp add: answering_session_facts example_session_ok)
  have run: "DwReconnect answering_session =
      and_then (DwGetRegs s2 28 [28, 29, 30, 31] 4)
        (\<lambda>regs s3. Returned () (s3\<lparr>R := take 28 (R s3) @ regs @ drop 32 (R s3)\<rparr>))"
    using DwReconnect_run(1) [OF answering_send answering_recv] by (simp add: s2_def regs)
  have "R s2 = R answering_session"
    by (simp add: s2_def)
  then show ?thesis
    using len by (simp add: run g)
qed

text \<open>
  Claim C9 has \<^verbatim>\<open>DwReconnect\<close> set PC to \<open>(2 * (w - 1)) mod FlashSize\<close> for every word
  \<open>w\<close> read back. Line 353 takes the remainder with C's \<^verbatim>\<open>%\<close>, which truncates towards
  zero. In the example session the adapter delivers nothing, so the word read back is
  0 and \<^verbatim>\<open>DwReconnect\<close> sets PC to -2, where \<open>(2 * (0 - 1)) mod 8192\<close> is 8190.
\<close>

theorem DwReconnect_zero_word:
  "(\<exists>st p2. DwReceive (push (pipe example_session) [0xF0]) [0, 0] 2 = Returned (st, [0, 0]) p2)
   \<and> PC (final (DwReconnect example_session)) = - 2
   \<and> PC (final (DwReconnect example_session)) \<noteq> (2 * (256 * 0 + 0 - 1)) mod FlashSize example_session"
proof -
  let ?p1 = "push (pipe example_session) [0xF0]"
  have send: "DwSend (pipe example_session) [0xF0] = Returned () ?p1"
    by (simp add: DwSend_push example_session_ok)
  have nd: "no_inbound_data (link ?p1)"
    by (simp add: no_inbound_data_def example_session_def startup_def willing_adapter_def)
  have "dwBufferFlush ?p1 0x14 =
          Returned () (?p1\<lparr>link := (link ?p1)\<lparr>usb_outs := 1,
             trace := [SendBytes 0x14 [0xF0], ControlOut 0x14 [0xF0]]\<rparr>, OutBufLength := 0\<rparr>)"
    by (simp add: dwBufferFlush_def on_link_def dwUSBSendBytes_accepted push_def memcpy_at_def
        example_session_def startup_def willing_adapter_def)
  then obtain r p2 where r: "DwReceive ?p1 [0, 0] 2 = Returned r p2"
    using DwReceive_returns [of ?p1 _ _ 2 "[0, 0]"] by auto
  obtain st buf where "r = (st, buf)"
    by (cases r)
  then have recv: "DwReceive ?p1 [0, 0] 2 = Returned (st, [0, 0]) p2"
    using r DwReceive_no_data [OF nd, of "[0, 0]" 2 st buf p2] by simp
  have "PC (final (DwReconnect example_session)) = - 2"
    using DwReconnect_run(2) [OF send recv] by (simp add: example_session_def c_rem_minus_2)
  then show ?thesis
    using recv by (auto simp: example_session_def)
qed

text \<open>
  \<^verbatim>\<open>DwReconnect\<close> for every word read back. When \<^verbatim>\<open>F0\<close> has been sent and the read-back is the bytes
  \<open>b0\<close> then \<open>b1\<close>, \<^verbatim>\<open>DwReadWord\<close> returns \<open>w = 256 * b0 + b1\<close> and \<^verbatim>\<open>DwReconnect\<close>
  sets PC to the remainder of \<open>2 * (w - 1)\<close> by \<^verbatim>\<open>FlashSize()\<close> as C computes it
  (truncating): \<open>(2 * (w - 1)) mod FlashSize\<close> when \<open>w \<ge> 1\<close>, and -2 when \<open>w = 0\<close>.
  It then runs \<^verbatim>\<open>DwGetRegs(28, R+28, 4)\<close>, whose four bytes become \<^verbatim>\<open>R[28..31]\<close> while
  \<^verbatim>\<open>R[0..27]\<close> stay. Starting from an empty buffer the transports are \<^verbatim>\<open>F0\<close> and
  \<^verbatim>\<open>D0 10 1C D1 10 20 66 C2 01 20\<close>, both with state 0x14.
\<close>

theorem DwReconnect_sets_PC:
  assumes "DwSend (pipe s) [0xF0] = Returned () p1"
    and "DwReceive p1 [0, 0] 2 = Returned (status, [b0, b1]) p2"
  shows "DwReadWord p1 = Returned (256 * uint b0 + uint b1) p2
       \<and> PC (final (DwReconnect s)) = c_rem (2 * (256 * uint b0 + uint b1 - 1)) (FlashSize s)
       \<and> (1 \<le> 256 * uint b0 + uint b1 \<and> 0 < FlashSize s \<longrightarrow>
            PC (final (DwReconnect s)) = (2 * (256 * uint b0 + uint b1 - 1)) mod FlashSize s)
       \<and> (b0 = 0 \<and> b1 = 0 \<and> 2 < FlashSize s \<longrightarrow> PC (final (DwReconnect s)) = - 2)
       \<and> DwReconnect s =
           and_then
             (DwGetRegs (s\<lparr>pipe := p2, PC := c_rem (2 * (256 * uint b0 + uint b1 - 1)) (FlashSize s)\<rparr>)
                28 (take 4 (drop 28 (R s))) 4)
             (\<lambda>regs s3. Returned () (s3\<lparr>R := take 28 (R s3) @ regs @ drop 32 (R s3)\<rparr>))
       \<and> (length (R s) = 32 \<longrightarrow>
            (\<forall>s'. DwReconnect s = Returned () s' \<longrightarrow>
               (\<exists>regs s3.
                  DwGetRegs (s\<lparr>pipe := p2, PC := c_rem (2 * (256 * uint b0 + uint b1 - 1)) (FlashSize s)\<rparr>)
                    28 (take 4 (drop 28 (R s))) 4 = Returned regs s3
                \<and> length regs = 4 \<and> take 4 (drop 28 (R s')) = regs
                \<and> take 28 (R s') = take 28 (R s) \<and> length (R s') = 32)))
       \<and> (OutBufLength (pipe s) = 0 \<and> length (OutBufBytes (pipe s)) = 128 \<longrightarrow>
            sent (pipe (final (DwReconnect s))) =
              sent (pipe s) @
                [(0x14, [0xF0]),
                 (0x14, [0xD0, 0x10, 0x1C, 0xD1, 0x10, 0x20, 0x66, 0xC2, 0x01, 0x20])])"
proof -
  define w where "w = 256 * uint b0 + uint b1"
  define s2 where "s2 = s\<lparr>pipe := p2, PC := c_rem (2 * (w - 1)) (FlashSize s)\<rparr>"
  define g where "g = DwGetRegs s2 28 (take 4 (drop 28 (R s))) 4"
  note run = DwReconnect_run [OF assms, folded w_def, folded s2_def, folded g_def]
  have word: "DwReadWord p1 = Returned w p2"
    using DwReadWord_value [OF assms(2)] by (simp add: w_def)
  have pos: "PC (final (DwReconnect s)) = (2 * (w - 1)) mod FlashSize s" if "1 \<le> w \<and> 0 < FlashSize s"
    using that run(2) by (simp add: c_rem_nonneg)
  have zero: "PC (final (DwReconnect s)) = - 2" if "b0 = 0 \<and> b1 = 0 \<and> 2 < FlashSize s"
    using that run(2) by (simp add: w_def c_rem_minus_2)
  have regs: "\<exists>regs s3. g = Returned regs s3
                \<and> length regs = 4 \<and> take 4 (drop 28 (R s')) = regs
                \<and> take 28 (R s') = take 28 (R s) \<and> length (R s') = 32"
    if len: "length (R s) = 32" and ret: "DwReconnect s = Returned () s'" for s'
  proof -
    from ret obtain regs s3 where g: "g = Returned regs s3"
      and s': "s' = s3\<lparr>R := take 28 (R s3) @ regs @ drop 32 (R s3)\<rparr>"
      unfolding run(1) by (cases g) auto
    have "same_registers s2 s3"
      using same_registers_DwGetRegs [of s2 28 "take 4 (drop 28 (R s))" 4] g by (simp add: g_def)
    then have R3: "R s3 = R s"
      by (simp add: same_registers_fields s2_def)
    from g obtain st p3 p4 where "DwReceive p3 (take 4 (drop 28 (R s))) 4 = Returned (st, regs) p4"
      using DwGetRegs_Returned [of s2 28 "take 4 (drop 28 (R s))" 4 regs s3] by (auto simp: g_def)
    then have "length regs = 4"
      using DwReceive_length [of p3 "take 4 (drop 28 (R s))" 4 st regs p4] len by simp
    then show ?thesis
      using g s' R3 len by simp
  qed
  have wire: "sent (pipe (final (DwReconnect s))) =
              sent (pipe s) @
                [(0x14, [0xF0]),
                 (0x14, [0xD0, 0x10, 0x1C, 0xD1, 0x10, 0x20, 0x66, 0xC2, 0x01, 0x20])]"
    if e: "OutBufLength (pipe s) = 0 \<and> length (OutBufBytes (pipe s)) = 128"
  proof -
    have ok: "buffer_ok (pipe s)"
      using e by (simp add: buffer_ok_def buffer_bounded_def)
    have p1: "p1 = push (pipe s) [0xF0]"
      using assms(1) e by (simp add: DwSend_push)
    have ok1: "buffer_ok p1" "buffered p1 = [0xF0]" "OutBufLength p1 = 1" "sent p1 = sent (pipe s)"
      using push_ok [OF ok, of "[0xF0]"] e by (simp_all add: p1 buffered_def)
    have "sent p2 = sent (pipe s) @ [(0x14, [0xF0])]"
      using DwReceive_props(3) [of p1 "[0, 0]" 2] assms(2) ok1 by simp
    moreover have "buffer_ok (pipe s2)" "OutBufLength (pipe s2) = 0"
      using DwReceive_emptied [OF assms(2) ok1(1)] by (simp_all add: s2_def)
    then have "sent (pipe (final g)) = sent p2 @ [(0x14, [0xD0, 0x10, 0x1C, 0xD1, 0x10, 0x20, 0x66, 0xC2, 0x01, 0x20])]"
      using DwGetRegs_28 [of s2 "take 4 (drop 28 (R s))"] by (simp add: g_def s2_def)
    moreover have "pipe (final (DwReconnect s)) = pipe (final g)"
      unfolding run(1) by (cases g) simp_all
    ultimately show ?thesis
      by simp
  qed
  show ?thesis
    using word run pos zero regs wire
    unfolding g_def s2_def w_def by blast
qed

theorem DwReconnect_sets_PC_witness:
  "(\<exists>p2. DwSend (pipe answering_session) [0xF0] = Returned () (push (pipe answering_session) [0xF0])
        \<and> DwReceive (push (pipe answering_session) [0xF0]) [0, 0] 2 = Returned (2, [0x00, 0x81]) p2)
   \<and> PC (final (DwReconnect answering_session)) = 256
   \<and> sent (pipe (final (DwReconnect answering_session))) =
        [(0x14, [0xF0]), (0x14, [0xD0, 0x10, 0x1C, 0xD1, 0x10, 0x20, 0x66, 0xC2, 0x01, 0x20])]
   \<and> (\<exists>s'. DwReconnect answering_session = Returned () s'
          \<and> take 4 (drop 28 (R s')) = [0xAA, 0xBB, 0xCC, 0xDD])"
proof -
  note t = DwReconnect_sets_PC [OF answering_send answering_recv]
  have "PC (final (DwReconnect answering_session)) = 256"
    using t [THEN conjunct2, THEN conjunct1]
    by (simp add: answering_session_facts c_rem_def c_div_def)
  moreover have "sent (pipe (final (DwReconnect answering_session))) =
        [(0x14, [0xF0]), (0x14, [0xD0, 0x10, 0x1C, 0xD1, 0x10, 0x20, 0x66, 0xC2, 0x01, 0x20])]"
    using t [THEN conjunct2, THEN conjunct2, THEN conjunct2, THEN conjunct2, THEN conjunct2, THEN conjunct2]
    by (simp add: answering_session_facts)
  ultimately show ?thesis
    using answering_send answering_recv answering_reconnect by blast
qed

subsection \<open>Clock recovery\<close>

lemma unat_u8_less: "unat (b :: u8) < 256"
  using unsigned_less [of b, where 'a = nat] by simp

lemma sample_less: "sample tms i < 65536"
  using unat_u8_less [of "tms ! (2 * i)"] unat_u8_less [of "tms ! (2 * i + 1)"]
  by (simp add: sample_def)

lemma unat_times_at: "unat (times_at tms i) = sample tms i"
proof -
  have "times_at tms i = word_of_nat (sample tms i)"
    by (simp only: times_at_def sample_def)
  then show ?thesis
    using sample_less [of tms i] by (simp add: unat_of_nat)
qed

lemma unat_ucast_times_at: "unat (ucast (times_at tms i) :: u32) = sample tms i"
  using sample_less [of tms i]
  by (simp add: unsigned_ucast_eq unat_times_at take_bit_nat_eq_self)

lemma sum_list_samples_le: "sum_list (map (sample tms) is) \<le> 65535 * length is"
proof (induction "is")
  case Nil
  show ?case by simp
next
  case (Cons i "is")
  then show ?case
    using sample_less [of tms i] by simp
qed

lemma unat_foldl_samples:
  "unat c + sum_list (map (sample tms) is) < 2 ^ 32 \<Longrightarrow>
   unat (foldl (\<lambda>c i. c + ucast (times_at tms i)) (c :: u32) is) = unat c + sum_list (map (sample tms) is)"
proof (induction "is" arbitrary: c)
  case Nil
  show ?case by simp
next
  case (Cons i "is")
  have "unat (c + ucast (times_at tms i)) = unat c + sample tms i"
    using Cons.prems by (simp add: unat_word_ariths unat_ucast_times_at)
  then show ?case
    using Cons.prems Cons.IH [of "c + ucast (times_at tms i)"] by simp
qed

lemma pulse_sum_le: "pulse_sum tms n \<le> 589815"
  using sum_list_samples_le [of tms "[n - 9 ..< n]"] by (simp add: pulse_sum_def)

lemma unat_sum_times: "unat (sum_times tms n) = pulse_sum tms n"
  using unat_foldl_samples [of 0 tms "[n - 9 ..< n]"] pulse_sum_le [of tms n]
  by (simp add: sum_times_def pulse_sum_def)

lemma unat_cycles:
  "unat ((6 * sum_times tms n) div 9 + 8 :: u32) = (6 * pulse_sum tms n) div 9 + 8"
    and unat_cycles_div: "unat ((6 * sum_times tms n) div 9 :: u32) = (6 * pulse_sum tms n) div 9"
proof -
  have "unat (6 :: u32) * unat (sum_times tms n) < 2 ^ LENGTH(32)"
    using pulse_sum_le [of tms n] by (simp add: unat_sum_times)
  then have "unat (6 * sum_times tms n) = unat (6 :: u32) * unat (sum_times tms n)"
    by (simp only: unat_mult_lem)
  then have 1: "unat (6 * sum_times tms n) = 6 * pulse_sum tms n"
    by (simp add: unat_sum_times)
  have "unat ((6 * sum_times tms n) div 9) = unat (6 * sum_times tms n) div unat (9 :: u32)"
    by (rule unat_div)
  then show 2: "unat ((6 * sum_times tms n) div 9 :: u32) = (6 * pulse_sum tms n) div 9"
    by (simp only: 1) simp
  have "unat ((6 * sum_times tms n) div 9 :: u32) + unat (8 :: u32) < 2 ^ LENGTH(32)"
    using pulse_sum_le [of tms n] by (simp only: 2) simp
  then have "unat ((6 * sum_times tms n) div 9 + 8) = unat ((6 * sum_times tms n) div 9 :: u32) + unat (8 :: u32)"
    by (simp only: unat_add_lem)
  then show "unat ((6 * sum_times tms n) div 9 + 8 :: u32) = (6 * pulse_sum tms n) div 9 + 8"
    by (simp only: 2) simp
qed

lemma unat_bit_time:
  "unat (ucast (((6 * sum_times tms n) div 9 + 8 - 8 :: u32) div 4) :: u16)
     = ((6 * pulse_sum tms n) div 9 + 8 - 8) div 4 mod 65536"
proof -
  have "((6 * sum_times tms n) div 9 + 8 - 8 :: u32) = (6 * sum_times tms n) div 9"
    by simp
  moreover have "unat (((6 * sum_times tms n) div 9 :: u32) div 4)
      = unat ((6 * sum_times tms n) div 9 :: u32) div unat (4 :: u32)"
    by (rule unat_div)
  ultimately have "unat (((6 * sum_times tms n) div 9 + 8 - 8 :: u32) div 4) = (6 * pulse_sum tms n) div 9 div 4"
    by (simp only: unat_cycles_div) simp
  then show ?thesis
    by (simp add: unsigned_ucast_eq take_bit_eq_mod)
qed

lemma bytes_of_u16_value:
  "\<exists>lo hi. bytes_of_u16 w = [lo, hi] \<and> unat lo + 256 * unat hi = unat w"
proof -
  have "unat (ucast w :: u8) = unat w mod 256"
    by (simp add: unsigned_ucast_eq take_bit_eq_mod)
  moreover have "unat (ucast (drop_bit 8 w) :: u8) = unat w div 256"
  proof -
    have "unat (drop_bit 8 w) = unat w div 256"
      by (simp add: unat_drop_bit_eq drop_bit_eq_div unat_div)
    moreover have "unat w div 256 < 256"
      using unsigned_less [of w, where 'a = nat] by simp
    ultimately show ?thesis
      by (simp add: unsigned_ucast_eq take_bit_eq_mod)
  qed
  ultimately show ?thesis
    by (simp add: bytes_of_u16_def)
qed

lemma read_back_shape:
  assumes "read_back_timings a tries status tms = ((status', tms'), a')"
    and "(status \<le> 0 \<and> tms = []) \<or> (0 < status \<and> int (length tms) = status \<and> status \<le> 128)"
  shows "(status' \<le> 0 \<and> tms' = []) \<or> (0 < status' \<and> int (length tms') = status' \<and> status' \<le> 128)"
  using assms
proof (induction a tries status tms rule: read_back_timings.induct)
  case (1 a tries status tms)
  show ?case
  proof (cases "tries < 5 \<and> status \<le> 0")
    case False
    then show ?thesis
      using 1(2,3) by (subst (asm) read_back_timings.simps) auto
  next
    case True
    obtain st d a1 where u: "usb_control_msg_in a 128 = ((st, d), a1)"
      by (cases "usb_control_msg_in a 128") auto
    have tms: "tms = []"
      using True 1(3) by auto
    have next_ok: "(st \<le> 0 \<and> overlay d tms = []) \<or> (0 < st \<and> int (length (overlay d tms)) = st \<and> st \<le> 128)"
      using u by (auto simp: usb_control_msg_in_def Let_def tms overlay_def split: usb_in.splits)
    have "read_back_timings a1 (tries + 1) st (overlay d tms) = ((status', tms'), a')"
      using 1(2) True u by (subst (asm) read_back_timings.simps) simp
    then show ?thesis
      using 1(1) [OF True u [symmetric] refl] next_ok by blast
  qed
qed

lemma read_back_polls:
  "\<exists>k. trace (snd (read_back_timings a tries status tms)) = trace a @ replicate k (ControlIn 128)"
  "cyclesPerPulse (snd (read_back_timings a tries status tms)) = cyclesPerPulse a"
  "Port (snd (read_back_timings a tries status tms)) = Port a"
proof (induction a tries status tms rule: read_back_timings.induct)
  case (1 a tries status tms)
  {
    case 1
    show ?case
    proof (cases "tries < 5 \<and> status \<le> 0")
      case False
      then show ?thesis
        by (subst read_back_timings.simps) (auto intro: exI [of _ 0])
    next
      case True
      obtain st d a1 where u: "usb_control_msg_in a 128 = ((st, d), a1)"
        by (cases "usb_control_msg_in a 128") auto
      have t1: "trace a1 = trace a @ [ControlIn 128]"
        using u by (auto simp: usb_control_msg_in_def Let_def split: usb_in.splits)
      obtain k where "trace (snd (read_back_timings a1 (tries + 1) st (overlay d tms))) = trace a1 @ replicate k (ControlIn 128)"
        using "1.IH"(1) [OF True u [symmetric] refl] by blast
      then have "trace (snd (read_back_timings a tries status tms)) = trace a @ replicate (Suc k) (ControlIn 128)"
        using True u t1 by (subst read_back_timings.simps) simp
      then show ?thesis
        by blast
    qed
  next
    case 2
    show ?case
    proof (cases "tries < 5 \<and> status \<le> 0")
      case False
      then show ?thesis
        by (subst read_back_timings.simps) auto
    next
      case True
      obtain st d a1 where u: "usb_control_msg_in a 128 = ((st, d), a1)"
        by (cases "usb_control_msg_in a 128") auto
      have "cyclesPerPulse a1 = cyclesPerPulse a"
        using u by (auto simp: usb_control_msg_in_def Let_def split: usb_in.splits)
      then show ?thesis
        using "1.IH"(2) [OF True u [symmetric] refl] True u by (subst read_back_timings.simps) simp
    qed
  next
    case 3
    show ?case
    proof (cases "tries < 5 \<and> status \<le> 0")
      case False
      then show ?thesis
        by (subst read_back_timings.simps) auto
    next
      case True
      obtain st d a1 where u: "usb_control_msg_in a 128 = ((st, d), a1)"
        by (cases "usb_control_msg_in a 128") auto
      have "Port a1 = Port a"
        using u by (auto simp: usb_control_msg_in_def Let_def split: usb_in.splits)
      then show ?thesis
        using "1.IH"(3) [OF True u [symmetric] refl] True u by (subst read_back_timings.simps) simp
    qed
  }
qed

lemma read_back_outs: "usb_outs (snd (read_back_timings a tries status tms)) = usb_outs a"
proof (induction a tries status tms rule: read_back_timings.induct)
  case (1 a tries status tms)
  show ?case
  proof (cases "tries < 5 \<and> status \<le> 0")
    case False
    then show ?thesis
      by (subst read_back_timings.simps) auto
  next
    case True
    obtain st d a1 where u: "usb_control_msg_in a 128 = ((st, d), a1)"
      by (cases "usb_control_msg_in a 128") auto
    have "usb_outs a1 = usb_outs a"
      using u by (auto simp: usb_control_msg_in_def Let_def split: usb_in.splits)
    then show ?thesis
      using 1 [OF True u [symmetric] refl] True u by (subst read_back_timings.simps) simp
  qed
qed

lemma SetDwireBaud_long:
  assumes "read_back_timings a 0 0 [] = ((status, tms), a1)" "18 \<le> status"
  defines "cycles \<equiv> (6 * pulse_sum tms (nat status div 2)) div 9 + 8"
  shows "int (length tms) = status"
    and "unat (cyclesPerPulse (final (SetDwireBaud a))) = cycles"
    and "\<exists>lo hi. trace (final (SetDwireBaud a)) = trace a1 @ [ControlOut 2 [lo, hi]]
           \<and> unat lo + 256 * unat hi = ((cycles - 8) div 4) mod 65536"
    and "SetDwireBaud a =
           (if usb_out_status a (usb_outs a) < 0 then Failed BaudRateNotSet (final (SetDwireBaud a))
            else Returned 1 (final (SetDwireBaud a)))"
proof -
  define n where "n = nat status div 2"
  define cpp :: u32 where "cpp = (6 * sum_times tms n) div 9 + 8"
  define bytes where "bytes = bytes_of_u16 (ucast ((cpp - 8) div 4))"
  define a2 where "a2 = a1\<lparr>cyclesPerPulse := cpp\<rparr>"
  obtain st a3 where o: "usb_control_msg_out a2 2 bytes = (st, a3)"
    by (cases "usb_control_msg_out a2 2 bytes") auto
  have a3: "a3 = a2\<lparr>usb_outs := Suc (usb_outs a2), trace := trace a2 @ [ControlOut 2 bytes]\<rparr>"
    using o by (auto simp: usb_control_msg_out_def)
  have nlt: "\<not> status < 18"
    using assms(2) by simp
  have "SetDwireBaud a =
      (case usb_control_msg_out a2 2 bytes of
         (st, a3) \<Rightarrow> if st < 0 then PortFail a3 BaudRateNotSet else Returned 1 a3)"
    unfolding a2_def bytes_def cpp_def n_def
    by (simp only: SetDwireBaud_def assms(1) prod.case nlt if_False Let_def)
  then have run: "SetDwireBaud a = (if st < 0 then PortFail a3 BaudRateNotSet else Returned 1 a3)"
    by (simp only: o prod.case)
  show "int (length tms) = status"
    using read_back_shape [OF assms(1)] assms(2) by auto
  have fin: "cyclesPerPulse (final (SetDwireBaud a)) = cpp"
      "trace (final (SetDwireBaud a)) = trace a1 @ [ControlOut 2 bytes]"
    by (simp_all add: run a3 a2_def PortFail_def)
  show "unat (cyclesPerPulse (final (SetDwireBaud a))) = cycles"
    by (simp only: fin cpp_def cycles_def n_def unat_cycles)
  obtain lo hi where b: "bytes = [lo, hi]"
      "unat lo + 256 * unat hi = unat (ucast ((cpp - 8) div 4) :: u16)"
    using bytes_of_u16_value [of "ucast ((cpp - 8) div 4)"] bytes_def by auto
  have "unat (ucast ((cpp - 8) div 4) :: u16) = ((cycles - 8) div 4) mod 65536"
    by (simp only: cpp_def cycles_def n_def unat_bit_time)
  then show "\<exists>lo hi. trace (final (SetDwireBaud a)) = trace a1 @ [ControlOut 2 [lo, hi]]
           \<and> unat lo + 256 * unat hi = ((cycles - 8) div 4) mod 65536"
    using b fin by auto
  have "usb_outs a1 = usb_outs a" "usb_out_status a1 = usb_out_status a"
    using read_back_outs [of a 0 0 "[]"] quiet_read_back_timings [of a 0 0 "[]"] assms(1)
    by (simp_all add: quiet_def)
  then have "st = usb_out_status a (usb_outs a)"
    using o by (simp add: usb_control_msg_out_def a2_def)
  then show "SetDwireBaud a =
           (if usb_out_status a (usb_outs a) < 0 then Failed BaudRateNotSet (final (SetDwireBaud a))
            else Returned 1 (final (SetDwireBaud a)))"
    by (simp add: run PortFail_def)
qed

lemma SetDwireBaud_short:
  assumes "read_back_timings a 0 0 [] = ((status, tms), a1)" "status < 18"
  shows "SetDwireBaud a = Returned 0 a1"
    and "cyclesPerPulse a1 = cyclesPerPulse a"
    and "\<exists>k. trace a1 = trace a @ replicate k (ControlIn 128)"
  using assms read_back_polls [of a 0 0 "[]"] by (simp_all add: SetDwireBaud_def)

lemma DwBreakAndSync_retry:
  assumes "tries < 25" "usb_control_msg_out a0 33 [] = (st, a)" "0 \<le> st"
    and "SetDwireBaud a = Returned 0 a1"
  shows "DwBreakAndSync_from a0 tries =
           DwBreakAndSync_from (console a1 [Wc CHR ''.'', ConsoleFlush]) (tries + 1)"
  using assms by (subst DwBreakAndSync_from.simps) simp

lemma DwBreakAndSync_connected:
  assumes "tries < 25" "usb_control_msg_out a0 33 [] = (st, a)" "0 \<le> st"
    and "SetDwireBaud a = Returned 1 a3"
  shows "DwBreakAndSync_from a0 tries =
           Returned () (console a3 [Ws ''Connected at '',
                                    Wd (16500000 div uint (cyclesPerPulse a3)) 1,
                                    Wsl '' baud.''])"
  using assms by (subst DwBreakAndSync_from.simps) (simp add: uint_div)

lemma DwSync_short:
  assumes "dwBufferFlush p 0x24 = Returned u p1" "SetDwireBaud (link p1) = Returned 0 a1"
  shows "DwSync p = Failed NoTimingsAfterSync (p1\<lparr>link := a1\<lparr>Port := False\<rparr>\<rparr>)"
  using assms by (simp add: DwSync_def on_link_def PortFail_def)

lemma reset_sent_flush:
  "dwBufferFlush reset_sent 0x24 =
     Returned () (reset_sent\<lparr>link := willing_adapter\<lparr>usb_outs := 1,
        trace := [SendBytes 0x24 [0x07], ControlOut 0x24 [0x07]]\<rparr>, OutBufLength := 0\<rparr>)"
  by (simp add: reset_sent_def dwBufferFlush_def on_link_def dwUSBSendBytes_accepted push_def
      memcpy_at_def startup_def willing_adapter_def)

lemma silent_read_back:
  "read_back_timings (willing_adapter\<lparr>usb_outs := 1,
        trace := [SendBytes 0x24 [0x07], ControlOut 0x24 [0x07]]\<rparr>) 0 0 [] =
     ((0, []), willing_adapter\<lparr>usb_outs := 1, usb_ins := 5,
        trace := [SendBytes 0x24 [0x07], ControlOut 0x24 [0x07], ControlIn 128, ControlIn 128,
                  ControlIn 128, ControlIn 128, ControlIn 128]\<rparr>)"
  by (simp add: read_back_timings.simps [of _ 0] read_back_timings.simps [of _ 1]
      read_back_timings.simps [of _ 2] read_back_timings.simps [of _ 3]
      read_back_timings.simps [of _ 4] read_back_timings.simps [of _ 5]
      usb_control_msg_in_def overlay_def willing_adapter_def)

lemma reset_sent_sync:
  "DwSync reset_sent = Failed NoTimingsAfterSync (final (DwSync reset_sent))"
  "trace (link (final (DwSync reset_sent))) =
     [SendBytes 0x24 [0x07], ControlOut 0x24 [0x07], ControlIn 128, ControlIn 128,
      ControlIn 128, ControlIn 128, ControlIn 128]"
proof -
  note s = SetDwireBaud_short [OF silent_read_back]
  have "SetDwireBaud (link (reset_sent\<lparr>link := willing_adapter\<lparr>usb_outs := 1,
        trace := [SendBytes 0x24 [0x07], ControlOut 0x24 [0x07]]\<rparr>, OutBufLength := 0\<rparr>))
      = Returned 0 (willing_adapter\<lparr>usb_outs := 1, usb_ins := 5,
        trace := [SendBytes 0x24 [0x07], ControlOut 0x24 [0x07], ControlIn 128, ControlIn 128,
                  ControlIn 128, ControlIn 128, ControlIn 128]\<rparr>)"
    using s(1) by simp
  note f = DwSync_short [OF reset_sent_flush this]
  show "DwSync reset_sent = Failed NoTimingsAfterSync (final (DwSync reset_sent))"
    by (simp add: f)
  show "trace (link (final (DwSync reset_sent))) =
     [SendBytes 0x24 [0x07], ControlOut 0x24 [0x07], ControlIn 128, ControlIn 128,
      ControlIn 128, ControlIn 128, ControlIn 128]"
    by (simp add: f)
qed

lemma le16_bytes:
  assumes "unat (b0 :: u8) + 256 * unat (b1 :: u8) = v"
  shows "b0 = word_of_nat (v mod 256)" "b1 = word_of_nat (v div 256)"
proof -
  have "unat b0 = v mod 256" "unat b1 = v div 256"
    using assms unat_u8_less [of b0] by auto
  then have "word_of_nat (unat b0) = (word_of_nat (v mod 256) :: u8)"
      "word_of_nat (unat b1) = (word_of_nat (v div 256) :: u8)"
    by simp_all
  then show "b0 = word_of_nat (v mod 256)" "b1 = word_of_nat (v div 256)"
    by simp_all
qed

lemma read_back_first:
  assumes "usb_in_reply a (usb_ins a) = InData d" "d \<noteq> []" "length d \<le> 128"
  shows "read_back_timings a 0 0 [] =
           ((int (length d), d), a\<lparr>usb_ins := Suc (usb_ins a), trace := trace a @ [ControlIn 128]\<rparr>)"
  using assms
  by (simp add: read_back_timings.simps [of _ 0] read_back_timings.simps [of _ 1]
      usb_control_msg_in_def overlay_def)

text \<open>
  When the adapter reads back nine pulse widths of 65535, \<^verbatim>\<open>cyclesPerPulse\<close> becomes
  393218 and the two bytes sent with value 2 are \<^verbatim>\<open>FE 7F\<close>, that is 32766, while
  \<open>(393218 - 8) div 4\<close> is 98302. And when \<^verbatim>\<open>DwSync\<close> follows the byte \<^verbatim>\<open>07\<close>, as in
  \<^verbatim>\<open>DwReset\<close>, on an adapter that reads nothing back, the read-back of 0 bytes is polled
  for five times by the one call of \<^verbatim>\<open>SetDwireBaud\<close> and \<^verbatim>\<open>DwSync\<close> then fails: the
  attempt is not made again.
\<close>

theorem SetDwireBaud_counterexample:
  "read_back_timings saturated_adapter 0 0 [] =
     ((18, replicate 18 0xFF),
      saturated_adapter\<lparr>usb_ins := 1, trace := [ControlIn 128]\<rparr>)
   \<and> pulse_sum (replicate 18 0xFF) 9 = 9 * 65535
   \<and> unat (cyclesPerPulse (final (SetDwireBaud saturated_adapter))) = 393218
   \<and> trace (final (SetDwireBaud saturated_adapter)) = [ControlIn 128, ControlOut 2 [0xFE, 0x7F]]
   \<and> unat (0xFE :: u8) + 256 * unat (0x7F :: u8) \<noteq> (393218 - 8) div 4
   \<and> DwSync reset_sent = Failed NoTimingsAfterSync (final (DwSync reset_sent))
   \<and> trace (link (final (DwSync reset_sent))) =
       [SendBytes 0x24 [0x07], ControlOut 0x24 [0x07], ControlIn 128, ControlIn 128,
        ControlIn 128, ControlIn 128, ControlIn 128]"
proof -
  have rb: "read_back_timings saturated_adapter 0 0 [] =
     ((18, replicate 18 0xFF), saturated_adapter\<lparr>usb_ins := 1, trace := [ControlIn 128]\<rparr>)"
    using read_back_first [of saturated_adapter "replicate 18 0xFF"]
    by (simp add: saturated_adapter_def willing_adapter_def)
  have ps: "pulse_sum (replicate 18 0xFF) 9 = 9 * 65535"
    by (simp add: pulse_sum_def sample_def upt_rec)
  note l = SetDwireBaud_long [OF rb]
  have c: "unat (cyclesPerPulse (final (SetDwireBaud saturated_adapter))) = 393218"
    using l(2) by (simp add: ps)
  obtain b0 b1 where t: "trace (final (SetDwireBaud saturated_adapter)) = [ControlIn 128, ControlOut 2 [b0, b1]]"
    and v: "unat b0 + 256 * unat b1 = 32766"
    using l(3) by (auto simp: ps)
  have "b0 = 0xFE" "b1 = 0x7F"
    using le16_bytes [OF v] by simp_all
  then show ?thesis
    using rb ps c t reset_sent_sync by simp
qed

text \<open>
  Claim C2, as amended. Let the polling loop of \<^verbatim>\<open>SetDwireBaud\<close> end with status
  \<open>status\<close> and the bytes \<open>tms\<close>. If \<open>status \<ge> 18\<close>, these are \<open>status\<close> bytes,
  \<^verbatim>\<open>cyclesPerPulse\<close> becomes \<open>(6 * S) div 9 + 8\<close> for the sum \<open>S\<close> of the last nine
  samples, and one OUT transfer with value 2 follows whose two bytes are, low byte
  first, \<open>(cyclesPerPulse - 8) div 4\<close> modulo 65536 (the quotient itself when
  \<open>S < 393216\<close>); the routine returns 1 unless that transfer fails, and
  \<^verbatim>\<open>DwBreakAndSync\<close> then reports \<open>16500000 div cyclesPerPulse\<close> baud. If
  \<open>status < 18\<close>, the routine returns 0 having only polled: \<^verbatim>\<open>DwBreakAndSync\<close> goes on
  to its next attempt, and every \<^verbatim>\<open>DwSync\<close> whose flush returned, whatever was in the
  buffer, fails without another attempt.
\<close>

theorem SetDwireBaud_recovers_clock:
  assumes "read_back_timings a 0 0 [] = ((status, tms), a1)"
  shows "(18 \<le> status \<longrightarrow>
            int (length tms) = status
          \<and> unat (cyclesPerPulse (final (SetDwireBaud a)))
              = (6 * pulse_sum tms (nat status div 2)) div 9 + 8
          \<and> (\<exists>b0 b1. trace (final (SetDwireBaud a)) = trace a1 @ [ControlOut 2 [b0, b1]]
                \<and> unat b0 + 256 * unat b1
                    = (((6 * pulse_sum tms (nat status div 2)) div 9 + 8 - 8) div 4) mod 65536
                \<and> (pulse_sum tms (nat status div 2) < 393216 \<longrightarrow>
                     unat b0 + 256 * unat b1
                       = ((6 * pulse_sum tms (nat status div 2)) div 9 + 8 - 8) div 4))
          \<and> SetDwireBaud a =
              (if usb_out_status a (usb_outs a) < 0
               then Failed BaudRateNotSet (final (SetDwireBaud a))
               else Returned 1 (final (SetDwireBaud a)))
          \<and> (\<forall>a0 tries st.
                tries < 25 \<and> usb_control_msg_out a0 33 [] = (st, a) \<and> 0 \<le> st
                \<and> 0 \<le> usb_out_status a (usb_outs a) \<longrightarrow>
                DwBreakAndSync_from a0 tries =
                  Returned ()
                    (console (final (SetDwireBaud a))
                       [Ws ''Connected at '',
                        Wd (16500000 div int ((6 * pulse_sum tms (nat status div 2)) div 9 + 8)) 1,
                        Wsl '' baud.''])))
       \<and> (status < 18 \<longrightarrow>
            SetDwireBaud a = Returned 0 a1
          \<and> cyclesPerPulse a1 = cyclesPerPulse a
          \<and> (\<exists>k. trace a1 = trace a @ replicate k (ControlIn 128))
          \<and> (\<forall>a0 tries st.
                tries < 25 \<and> usb_control_msg_out a0 33 [] = (st, a) \<and> 0 \<le> st \<longrightarrow>
                DwBreakAndSync_from a0 tries =
                  DwBreakAndSync_from (console a1 [Wc CHR ''.'', ConsoleFlush]) (tries + 1))
          \<and> (\<forall>p u p1. dwBufferFlush p 0x24 = Returned u p1 \<and> link p1 = a \<longrightarrow>
                DwSync p = Failed NoTimingsAfterSync (p1\<lparr>link := a1\<lparr>Port := False\<rparr>\<rparr>)))"
proof (intro conjI impI)
  assume long: "18 \<le> status"
  define cycles where "cycles = (6 * pulse_sum tms (nat status div 2)) div 9 + 8"
  note l = SetDwireBaud_long [OF assms long, folded cycles_def]
  show "int (length tms) = status"
    by (rule l(1))
  show "unat (cyclesPerPulse (final (SetDwireBaud a))) = (6 * pulse_sum tms (nat status div 2)) div 9 + 8"
    using l(2) by (simp add: cycles_def)
  show "\<exists>b0 b1. trace (final (SetDwireBaud a)) = trace a1 @ [ControlOut 2 [b0, b1]]
                \<and> unat b0 + 256 * unat b1
                    = (((6 * pulse_sum tms (nat status div 2)) div 9 + 8 - 8) div 4) mod 65536
                \<and> (pulse_sum tms (nat status div 2) < 393216 \<longrightarrow>
                     unat b0 + 256 * unat b1
                       = ((6 * pulse_sum tms (nat status div 2)) div 9 + 8 - 8) div 4)"
  proof -
    obtain b0 b1 where b: "trace (final (SetDwireBaud a)) = trace a1 @ [ControlOut 2 [b0, b1]]"
      "unat b0 + 256 * unat b1 = ((cycles - 8) div 4) mod 65536"
      using l(3) by blast
    have "((cycles - 8) div 4) mod 65536 = (cycles - 8) div 4"
      if "pulse_sum tms (nat status div 2) < 393216"
    proof -
      have "(cycles - 8) div 4 < 65536"
        using that by (simp add: cycles_def)
      then show ?thesis
        by simp
    qed
    then show ?thesis
      using b unfolding cycles_def by (intro exI [of _ b0] exI [of _ b1]) simp
  qed
  show run: "SetDwireBaud a =
              (if usb_out_status a (usb_outs a) < 0
               then Failed BaudRateNotSet (final (SetDwireBaud a))
               else Returned 1 (final (SetDwireBaud a)))"
    by (rule l(4))
  show "\<forall>a0 tries st.
                tries < 25 \<and> usb_control_msg_out a0 33 [] = (st, a) \<and> 0 \<le> st
                \<and> 0 \<le> usb_out_status a (usb_outs a) \<longrightarrow>
                DwBreakAndSync_from a0 tries =
                  Returned ()
                    (console (final (SetDwireBaud a))
                       [Ws ''Connected at '',
                        Wd (16500000 div int ((6 * pulse_sum tms (nat status div 2)) div 9 + 8)) 1,
                        Wsl '' baud.''])"
  proof (intro allI impI)
    fix a0 :: adapter and tries st :: int
    assume h: "tries < 25 \<and> usb_control_msg_out a0 33 [] = (st, a) \<and> 0 \<le> st
                \<and> 0 \<le> usb_out_status a (usb_outs a)"
    then have r: "SetDwireBaud a = Returned 1 (final (SetDwireBaud a))"
      using run by simp
    have "uint (cyclesPerPulse (final (SetDwireBaud a))) = int cycles"
      using l(2) by (simp add: uint_nat)
    then show "DwBreakAndSync_from a0 tries =
                  Returned ()
                    (console (final (SetDwireBaud a))
                       [Ws ''Connected at '',
                        Wd (16500000 div int ((6 * pulse_sum tms (nat status div 2)) div 9 + 8)) 1,
                        Wsl '' baud.''])"
      using DwBreakAndSync_connected [OF _ _ _ r, of tries a0 st] h by (simp add: cycles_def)
  qed
next
  assume short: "status < 18"
  note s = SetDwireBaud_short [OF assms short]
  show "SetDwireBaud a = Returned 0 a1" "cyclesPerPulse a1 = cyclesPerPulse a"
    "\<exists>k. trace a1 = trace a @ replicate k (ControlIn 128)"
    by (rule s)+
  show "\<forall>a0 tries st.
                tries < 25 \<and> usb_control_msg_out a0 33 [] = (st, a) \<and> 0 \<le> st \<longrightarrow>
                DwBreakAndSync_from a0 tries =
                  DwBreakAndSync_from (console a1 [Wc CHR ''.'', ConsoleFlush]) (tries + 1)"
    using DwBreakAndSync_retry [OF _ _ _ s(1)] by blast
  show "\<forall>p u p1. dwBufferFlush p 0x24 = Returned u p1 \<and> link p1 = a \<longrightarrow>
                DwSync p = Failed NoTimingsAfterSync (p1\<lparr>link := a1\<lparr>Port := False\<rparr>\<rparr>)"
    using DwSync_short s(1) by blast
qed

theorem SetDwireBaud_recovers_clock_witness:
  "usb_control_msg_out pulsing_adapter 33 [] = (128, after_break)
   \<and> read_back_timings after_break 0 0 [] =
       ((18, pulses_82), after_break\<lparr>usb_ins := 1, trace := [ControlOut 33 [], ControlIn 128]\<rparr>)
   \<and> pulse_sum pulses_82 9 = 9 * 82
   \<and> unat (cyclesPerPulse (final (SetDwireBaud after_break))) = 500
   \<and> trace (final (SetDwireBaud after_break)) =
       [ControlOut 33 [], ControlIn 128, ControlOut 2 [0x7B, 0x00]]
   \<and> DwBreakAndSync pulsing_adapter =
       Returned ()
         (console (final (SetDwireBaud after_break))
            [Ws ''Connected at '', Wd 33000 1, Wsl '' baud.''])"
proof -
  have brk: "usb_control_msg_out pulsing_adapter 33 [] = (128, after_break)"
    by (simp add: usb_control_msg_out_def pulsing_adapter_def willing_adapter_def after_break_def)
  have rb: "read_back_timings after_break 0 0 [] =
       ((18, pulses_82), after_break\<lparr>usb_ins := 1, trace := [ControlOut 33 [], ControlIn 128]\<rparr>)"
    using read_back_first [of after_break pulses_82]
    by (simp add: after_break_def pulsing_adapter_def willing_adapter_def pulses_82_def)
  have ps: "pulse_sum pulses_82 9 = 9 * 82"
    by (simp add: pulse_sum_def sample_def upt_rec pulses_82_def)
  have env: "usb_out_status after_break (usb_outs after_break) = 128"
    by (simp add: after_break_def pulsing_adapter_def willing_adapter_def)
  note t = SetDwireBaud_recovers_clock [OF rb, THEN conjunct1, rule_format]
  have long: "(18::int) \<le> 18"
    by simp
  have c: "unat (cyclesPerPulse (final (SetDwireBaud after_break))) = 500"
    using t [OF long] by (simp add: ps)
  obtain b0 b1 where tr: "trace (final (SetDwireBaud after_break)) =
        [ControlOut 33 [], ControlIn 128, ControlOut 2 [b0, b1]]"
    and v: "unat b0 + 256 * unat b1 = 123"
    using t [OF long] by (auto simp: ps)
  have "b0 = 0x7B" "b1 = 0x00"
    using le16_bytes [OF v] by simp_all
  moreover have "DwBreakAndSync pulsing_adapter =
       Returned ()
         (console (final (SetDwireBaud after_break))
            [Ws ''Connected at '', Wd 33000 1, Wsl '' baud.''])"
    using t [OF long] brk env by (simp add: DwBreakAndSync_def ps)
  ultimately show ?thesis
    using brk rb ps c tr by simp
qed

subsection \<open>Reading the data area\<close>

lemma DwSend_calm: "calm (link p) (link (final (DwSend p out)))"
proof (induction p out rule: DwSend.induct)
  case (1 p out)
  show ?case
  proof (cases "OutBufLength p + int (length out) > 128")
    case False
    then show ?thesis
      by (subst DwSend.simps) (simp add: calm_def)
  next
    case True
    define p1 where "p1 = p\<lparr>OutBufBytes :=
      memcpy_at (OutBufBytes p) (nat (OutBufLength p)) out (nat (128 - OutBufLength p))\<rparr>"
    define r where "r = on_link (\<lambda>a. dwUSBSendBytes a 0x04 (take 128 (OutBufBytes p1))) p1"
    have unfold: "DwSend p out =
        (case r of Failed e p2 \<Rightarrow> Failed e p2
         | Returned u p2 \<Rightarrow> DwSend (p2\<lparr>OutBufLength := 0\<rparr>) (drop (nat (128 - OutBufLength p)) out))"
      unfolding r_def p1_def
      using True by (subst DwSend.simps) (simp add: Let_def)
    have cr: "calm (link p) (link (final r))"
      using dwUSBSendBytes_calm [of "link p" 4 "take 128 (OutBufBytes p1)"]
      by (simp add: r_def p1_def)
    show ?thesis
    proof (cases r)
      case (Failed e p2)
      then show ?thesis
        using unfold cr by simp
    next
      case (Returned u p2)
      have "calm (link (p2\<lparr>OutBufLength := 0\<rparr>))
              (link (final (DwSend (p2\<lparr>OutBufLength := 0\<rparr>) (drop (nat (128 - OutBufLength p)) out))))"
        using 1 [OF True refl refl, of u p2] Returned unfolding r_def p1_def by simp
      moreover have "calm (link p) (link (p2\<lparr>OutBufLength := 0\<rparr>))"
        using cr Returned by simp
      ultimately show ?thesis
        using unfold Returned by (auto intro: calm_trans)
    qed
  qed
qed

lemma encoder_calm:
  "calm (link p) (link (final (DwSetPC p pc)))"
  "calm (link p) (link (final (DwSetBP p bp)))"
  "calm (link p) (link (final (DwInst p inst)))"
  "calm (link p) (link (final (DwIn p reg ioreg)))"
  "calm (link p) (link (final (DwOut p ioreg reg)))"
  by (simp_all add: DwSetPC_def DwSetBP_def DwInst_def DwIn_def DwOut_def DwSend_calm)

lemma and_then_calm:
  assumes "calm a (link (final m))"
    and "\<And>x p. m = Returned x p \<Longrightarrow> calm (link p) (link (final (f x p)))"
  shows "calm a (link (final (and_then m f)))"
  using assms by (cases m) (auto intro: calm_trans)

lemma DwSetReg_calm: "calm (link (pipe s)) (link (pipe (final (DwSetReg s reg val))))"
  unfolding DwSetReg_def on_pipe_frame
  by (rule and_then_calm) (simp_all add: encoder_calm DwSend_calm)

lemma DwSetRegs_each_calm:
  "calm (link (pipe s)) (link (pipe (final (DwSetRegs_each s first regs))))"
proof (induction regs arbitrary: s first)
  case Nil
  show ?case by simp
next
  case (Cons r regs)
  show ?case
  proof (cases "DwSetReg s first r")
    case (Failed e s1)
    then show ?thesis
      using DwSetReg_calm [of s first r] by simp
  next
    case (Returned u s1)
    then have "calm (link (pipe s)) (link (pipe s1))"
      using DwSetReg_calm [of s first r] by simp
    then show ?thesis
      using Returned Cons.IH [of s1 "first + 1"] by (auto intro: calm_trans)
  qed
qed

lemma DwSetRegs_calm: "calm (link (pipe s)) (link (pipe (final (DwSetRegs s first regs))))"
proof (cases "int (length regs) \<le> 3")
  case True
  then show ?thesis
    by (simp add: DwSetRegs_def DwSetRegs_each_calm)
next
  case False
  then show ?thesis
    unfolding DwSetRegs_def
    by (simp add: encoder_calm DwSend_calm and_then_calm)
qed

lemma and_then_Returned:
  "and_then m f = Returned y s' \<longleftrightarrow> (\<exists>x s1. m = Returned x s1 \<and> f x s1 = Returned y s')"
  by (cases m) simp_all

lemma on_pipe_Returned:
  "on_pipe f s = Returned x s' \<longleftrightarrow> (\<exists>p'. f (pipe s) = Returned x p' \<and> s' = s\<lparr>pipe := p'\<rparr>)"
  by (auto simp: on_pipe_def split: outcome.splits)

lemma and_then_pipe_calm:
  assumes "calm a (link (pipe (final m)))"
    and "\<And>x s. m = Returned x s \<Longrightarrow> calm (link (pipe s)) (link (pipe (final (f x s))))"
  shows "calm a (link (pipe (final (and_then m f))))"
  using assms by (cases m) (auto intro: calm_trans)

lemma and_then_same_registers:
  assumes "same_registers s (final m)"
    and "\<And>x s1. m = Returned x s1 \<Longrightarrow> same_registers s1 (final (f x s1))"
  shows "same_registers s (final (and_then m f))"
  using assms by (cases m) (auto intro: same_registers_trans)

lemma note_event_props [simp]:
  "events (note_event s e) = events s @ [e]"
  "same_registers s (note_event s e)"
  by (simp_all add: events_def note_event_def log_event_def same_registers_def)

lemma calm_unsafe_reads:
  "calm (link (pipe s)) (link (pipe s')) \<Longrightarrow> unsafe_reads (events s') = unsafe_reads (events s)"
  by (simp add: calm_def events_def)

lemma DwUnsafeReadAddr_same_registers:
  "same_registers s (final (DwUnsafeReadAddr s addr len buf))"
  unfolding DwUnsafeReadAddr_def DwSetZ_def
proof (rule and_then_same_registers)
  show "same_registers s (final (DwSetRegs (note_event s (UnsafeRead addr len)) 30 (bytes_of_u16 (word_of_int addr))))"
    using same_registers_DwSetRegs [of "note_event s (UnsafeRead addr len)"]
    by (auto intro: same_registers_trans [OF note_event_props(2)])
qed simp

lemma DwUnsafeReadAddr_reads:
  "unsafe_reads (events (final (DwUnsafeReadAddr s addr len buf)))
     = unsafe_reads (events s) @ [(addr, len)]"
proof -
  define s0 where "s0 = note_event s (UnsafeRead addr len)"
  have "calm (link (pipe s0)) (link (pipe (final (DwUnsafeReadAddr s addr len buf))))"
    unfolding DwUnsafeReadAddr_def DwSetZ_def s0_def [symmetric]
  proof (rule and_then_pipe_calm)
    show "calm (link (pipe s0)) (link (pipe (final (DwSetRegs s0 30 (bytes_of_u16 (word_of_int addr))))))"
      by (rule DwSetRegs_calm)
  next
    fix x s1
    show "calm (link (pipe s1))
        (link (pipe (final (on_pipe (\<lambda>p.
          and_then (DwSetPC p 0)
            (\<lambda>_ p1. and_then (DwSetBP p1 (word_of_int (2 * len)))
               (\<lambda>_ p2. and_then (DwSend p2 [0x66, 0xC2, 0x00, 0x20])
                  (\<lambda>_ p3. and_then (DwReceive p3 buf len)
                     (\<lambda>(status, buf') p4. Returned buf' p4))))) s1))))"
      unfolding on_pipe_frame
      by (intro and_then_calm)
        (simp_all add: encoder_calm DwSend_calm DwReceive_props split: prod.splits)
  qed
  then have "unsafe_reads (events (final (DwUnsafeReadAddr s addr len buf))) = unsafe_reads (events s0)"
    by (rule calm_unsafe_reads)
  then show ?thesis
    by (simp add: s0_def)
qed

lemma DwUnsafeReadAddr_length:
  assumes "DwUnsafeReadAddr s addr len buf = Returned buf' s'" "int (length buf) = len"
  shows "length buf' = length buf"
proof -
  from assms(1) obtain p3 st p4 where "DwReceive p3 buf len = Returned (st, buf') p4"
    by (auto simp: DwUnsafeReadAddr_def and_then_Returned on_pipe_Returned split: prod.splits)
  then show ?thesis
    using assms(2) by (rule DwReceive_length)
qed

lemma write_at_props:
  assumes "off + length new \<le> length buf"
  shows "length (write_at buf off new) = length buf"
    and "i < off \<Longrightarrow> write_at buf off new ! i = buf ! i"
  using assms by (simp_all add: write_at_def nth_append)

lemma unsafe_read_into_same_registers:
  "same_registers s (final (unsafe_read_into s addr len buf off))"
  unfolding unsafe_read_into_def
  by (rule and_then_same_registers) (simp_all add: DwUnsafeReadAddr_same_registers)

lemma unsafe_read_into_reads:
  "unsafe_reads (events (final (unsafe_read_into s addr len buf off)))
     = unsafe_reads (events s) @ [(addr, len)]"
  using DwUnsafeReadAddr_reads [of s addr len "take (nat len) (drop off buf)"]
  by (cases "DwUnsafeReadAddr s addr len (take (nat len) (drop off buf))")
    (simp_all add: unsafe_read_into_def)

lemma unsafe_read_into_buffer:
  assumes "unsafe_read_into s addr len buf off = Returned buf1 s1"
    and "0 \<le> len" "off + nat len \<le> length buf"
  shows "length buf1 = length buf" and "i < off \<Longrightarrow> buf1 ! i = buf ! i"
proof -
  from assms(1) obtain new where
    r: "DwUnsafeReadAddr s addr len (take (nat len) (drop off buf)) = Returned new s1"
    and b: "buf1 = write_at buf off new"
    by (auto simp: unsafe_read_into_def and_then_Returned)
  have "length new = nat len"
    using DwUnsafeReadAddr_length [OF r] assms(2,3) by simp
  then have "off + length new \<le> length buf"
    using assms(3) by simp
  then show "length buf1 = length buf" and "i < off \<Longrightarrow> buf1 ! i = buf ! i"
    unfolding b by (simp_all add: write_at_props)
qed

lemma read_chunks_props:
  "same_registers s (final (read_chunks s addr len buf off)) \<and>
   (\<exists>rs. unsafe_reads (events (final (read_chunks s addr len buf off))) = unsafe_reads (events s) @ rs
        \<and> (\<forall>r\<in>set rs. addr \<le> fst r \<and> 0 < snd r)) \<and>
   (\<forall>buf' s'. read_chunks s addr len buf off = Returned buf' s' \<longrightarrow> off + nat len \<le> length buf \<longrightarrow>
        length buf' = length buf \<and> (\<forall>i<off. buf' ! i = buf ! i))"
proof (induction s addr len buf off rule: read_chunks.induct)
  case (1 s addr len buf off)
  show ?case
  proof (cases "len > 128")
    case True
    define r where "r = unsafe_read_into s addr 128 buf off"
    have unfold: "read_chunks s addr len buf off =
        (case r of Failed e s1 \<Rightarrow> Failed e s1
         | Returned buf1 s1 \<Rightarrow> read_chunks s1 (addr + 128) (len - 128) buf1 (off + 128))"
      using True by (subst read_chunks.simps) (simp add: r_def)
    have sr: "same_registers s (final r)"
      and rr: "unsafe_reads (events (final r)) = unsafe_reads (events s) @ [(addr, 128)]"
      by (simp_all add: r_def unsafe_read_into_same_registers unsafe_read_into_reads)
    show ?thesis
    proof (cases r)
      case (Failed e s1)
      then have "read_chunks s addr len buf off = Failed e s1"
        using unfold by simp
      then show ?thesis
        using sr rr Failed by simp
    next
      case (Returned buf1 s1)
      let ?next = "read_chunks s1 (addr + 128) (len - 128) buf1 (off + 128)"
      have step: "read_chunks s addr len buf off = ?next"
        using unfold Returned by simp
      have ih: "same_registers s1 (final ?next) \<and>
         (\<exists>rs. unsafe_reads (events (final ?next)) = unsafe_reads (events s1) @ rs
              \<and> (\<forall>r\<in>set rs. addr + 128 \<le> fst r \<and> 0 < snd r)) \<and>
         (\<forall>buf' s'. ?next = Returned buf' s' \<longrightarrow> off + 128 + nat (len - 128) \<le> length buf1 \<longrightarrow>
              length buf' = length buf1 \<and> (\<forall>i<off + 128. buf' ! i = buf1 ! i))"
        using 1 [OF True] Returned unfolding r_def by simp
      then obtain rs where rs: "unsafe_reads (events (final ?next)) = unsafe_reads (events s1) @ rs"
          "\<forall>r\<in>set rs. addr + 128 \<le> fst r \<and> 0 < snd r"
        by blast
      have a: "same_registers s (final ?next)"
        using sr ih Returned by (auto intro: same_registers_trans)
      have b: "unsafe_reads (events (final ?next)) = unsafe_reads (events s) @ ((addr, 128) # rs)"
        using rs(1) rr Returned by simp
      have c: "\<forall>r\<in>set ((addr, 128) # rs). addr \<le> fst r \<and> 0 < snd r"
        using rs(2) by auto
      have d: "length buf' = length buf \<and> (\<forall>i<off. buf' ! i = buf ! i)"
        if run: "?next = Returned buf' s'" and fit: "off + nat len \<le> length buf" for buf' s'
      proof -
        have fit1: "off + nat 128 \<le> length buf"
          using fit True by simp
        have l1: "length buf1 = length buf" and k1: "\<And>i. i < off \<Longrightarrow> buf1 ! i = buf ! i"
          using unsafe_read_into_buffer [OF Returned [unfolded r_def] _ fit1] by simp_all
        have "off + 128 + nat (len - 128) \<le> length buf1"
          using fit True l1 by simp
        then have "length buf' = length buf1 \<and> (\<forall>i<off + 128. buf' ! i = buf1 ! i)"
          using ih run by blast
        then show ?thesis
          using l1 k1 by simp
      qed
      show ?thesis
        unfolding step using a b c d by (intro conjI exI [of _ "(addr, 128) # rs"]) blast+
    qed
  next
    case False
    show ?thesis
    proof (cases "len > 0")
      case True
      have eq: "read_chunks s addr len buf off = unsafe_read_into s addr len buf off"
        using True False by (subst read_chunks.simps) simp
      have "length buf' = length buf \<and> (\<forall>i<off. buf' ! i = buf ! i)"
        if "unsafe_read_into s addr len buf off = Returned buf' s'" "off + nat len \<le> length buf"
        for buf' s'
        using unsafe_read_into_buffer [OF that(1) _ that(2)] True by simp
      then show ?thesis
        unfolding eq
        using True unsafe_read_into_same_registers [of s addr len buf off]
          unsafe_read_into_reads [of s addr len buf off]
        by (intro conjI exI [of _ "[(addr, len)]"]) auto
    next
      case no: False
      have eq: "read_chunks s addr len buf off = Returned buf s"
        using no False by (subst read_chunks.simps) simp
      show ?thesis
        unfolding eq by simp
    qed
  qed
qed

lemma read_cached_28:
  assumes "32 < len"
  shows "read_cached Rs 28 (len - 28) buf 28
           = (32, len - 32, buf[28 := Rs ! 28, 29 := Rs ! 29, 30 := Rs ! 30, 31 := Rs ! 31], 32)"
  using assms by (simp add: read_cached.simps numeral_eq_Suc)

lemma DwReadAddr_from_0:
  assumes "32 \<le> DWDRaddr s" "DWDRaddr s < len"
  shows "DwReadAddr s 0 len buf =
    (case unsafe_read_into s 0 28 buf 0 of
       Failed e s1 \<Rightarrow> Failed e s1
     | Returned buf1 s1 \<Rightarrow>
         (let buf2 = buf1[28 := R s ! 28, 29 := R s ! 29, 30 := R s ! 30, 31 := R s ! 31]
          in if 32 < DWDRaddr s
             then (case unsafe_read_into s1 32 (DWDRaddr s - 32) buf2 32 of
                     Failed e s2 \<Rightarrow> Failed e s2
                   | Returned buf3 s2 \<Rightarrow>
                       read_chunks s2 (DWDRaddr s + 1) (len - DWDRaddr s - 1)
                         (buf3[nat (DWDRaddr s) := 0]) (Suc (nat (DWDRaddr s))))
             else read_chunks s1 33 (len - 33) (buf2[32 := 0]) 33))"
proof (cases "unsafe_read_into s 0 28 buf 0")
  case (Failed e s1)
  then show ?thesis
    using assms by (simp add: DwReadAddr_def Let_def)
next
  case (Returned buf1 s1)
  have s1: "R s1 = R s" "DWDRaddr s1 = DWDRaddr s"
    using unsafe_read_into_same_registers [of s 0 28 buf 0] Returned
    by (simp_all add: same_registers_fields)
  define buf2 where "buf2 = buf1[28 := R s ! 28, 29 := R s ! 29, 30 := R s ! 30, 31 := R s ! 31]"
  have rc: "read_cached (R s) 28 (len - 28) buf1 28 = (32, len - 32, buf2, 32)"
    using assms by (simp add: read_cached_28 buf2_def)
  show ?thesis
  proof (cases "32 < DWDRaddr s")
    case True
    have n: "32 + nat (DWDRaddr s - 32) = nat (DWDRaddr s)"
      using True by simp
    show ?thesis
    proof (cases "unsafe_read_into s1 32 (DWDRaddr s - 32) buf2 32")
      case (Failed e s2)
      then show ?thesis
        using assms True Returned
        by (simp add: DwReadAddr_def Let_def s1 rc buf2_def [symmetric])
    next
      case r2: (Returned buf3 s2)
      have s2: "DWDRaddr s2 = DWDRaddr s"
        using unsafe_read_into_same_registers [of s1 32 "DWDRaddr s - 32" buf2 32] r2 s1
        by (simp add: same_registers_fields)
      show ?thesis
        using assms True Returned r2
        by (simp add: DwReadAddr_def Let_def s1 s2 rc n buf2_def [symmetric])
    qed
  next
    case False
    then have d: "DWDRaddr s = 32"
      using assms by simp
    show ?thesis
      using assms Returned
      by (simp add: DwReadAddr_def Let_def s1 rc d buf2_def [symmetric])
  qed
qed

subsection \<open>Bulk reads on an accepting adapter\<close>

lemma and_then_assoc:
  "and_then (and_then m f) g = and_then m (\<lambda>x s. and_then (f x s) g)"
  by (cases m) simp_all

lemma receive_poll_Port: "Port (snd (receive_poll a inb inlen tries status)) = Port a"
proof (induction a inb inlen tries status rule: receive_poll.induct)
  case (1 a inb inlen tries status)
  show ?case
  proof (cases "tries < 50 \<and> status \<le> 0")
    case True
    obtain st d a' where u: "usb_control_msg_in a inlen = ((st, d), a')"
      by (cases "usb_control_msg_in a inlen") auto
    have "Port a' = Port a"
      using u by (auto simp: usb_control_msg_in_def Let_def split: usb_in.splits)
    moreover have "Port (snd (receive_poll a' (overlay d inb) inlen (tries + 1) st)) = Port a'"
      using 1 True u by simp
    ultimately show ?thesis
      using True u by (subst receive_poll.simps) simp
  next
    case False
    then show ?thesis
      by (subst receive_poll.simps) auto
  qed
qed

lemma receive_poll_accepting:
  "accepting a \<Longrightarrow> accepting (snd (receive_poll a inb inlen tries status))"
  using quiet_receive_poll [of a inb inlen tries status] receive_poll_Port [of a inb inlen tries status]
  by (simp add: accepting_def quiet_def)

lemma dwUSBSendBytes_accepting:
  assumes "accepting a" "length out \<le> 128"
  shows "\<exists>a'. dwUSBSendBytes a state out = Returned () a' \<and> accepting a'"
  using assms by (simp add: dwUSBSendBytes_accepted accepting_def)

lemma dwBufferFlush_accepting:
  assumes "accepting (link p)" "buffer_ok p"
  shows "\<exists>p'. dwBufferFlush p state = Returned () p' \<and> accepting (link p')
           \<and> buffer_ok p' \<and> OutBufLength p' = 0"
proof (cases "OutBufLength p > 0")
  case False
  then show ?thesis
    using assms by (simp add: dwBufferFlush_def buffer_ok_def buffer_bounded_def)
next
  case True
  have "length (take (nat (OutBufLength p)) (OutBufBytes p)) \<le> 128"
    using assms(2) by (simp add: buffer_ok_def buffer_bounded_def)
  then obtain a' where
    "dwUSBSendBytes (link p) state (take (nat (OutBufLength p)) (OutBufBytes p)) = Returned () a'"
    "accepting a'"
    using dwUSBSendBytes_accepting [OF assms(1)] by blast
  then show ?thesis
    using True assms(2) by (simp add: dwBufferFlush_def on_link_def buffer_ok_def buffer_bounded_def)
qed

lemma DwReceive_accepting:
  assumes "accepting (link p)" "buffer_ok p" "inlen \<le> 128"
  shows "\<exists>r p'. DwReceive p inb inlen = Returned r p' \<and> accepting (link p')
           \<and> buffer_ok p' \<and> OutBufLength p' = 0"
proof -
  obtain p1 where f: "dwBufferFlush p 0x14 = Returned () p1" "accepting (link p1)"
      "buffer_ok p1" "OutBufLength p1 = 0"
    using dwBufferFlush_accepting [OF assms(1,2)] by blast
  obtain r a where r: "receive_poll (link p1) inb (nat inlen) 0 0 = (r, a)"
    by (cases "receive_poll (link p1) inb (nat inlen) 0 0") auto
  have "accepting a"
    using receive_poll_accepting [OF f(2), of inb "nat inlen" 0 0] r by simp
  then show ?thesis
    using assms(3) f r by (simp add: DwReceive_def buffer_ok_def buffer_bounded_def)
qed

lemma DwUnsafeReadAddr_returns:
  assumes "ready s" "len \<le> 128"
  shows "\<exists>new s1. DwUnsafeReadAddr s addr len buf = Returned new s1 \<and> ready s1"
proof -
  define s0 where "s0 = note_event s (UnsafeRead addr len)"
  have s0: "buffer_ok (pipe s0)" "OutBufLength (pipe s0) = 0" "accepting (link (pipe s0))"
    using assms(1)
    by (simp_all add: s0_def ready_def note_event_def log_event_def buffer_ok_def
        buffer_bounded_def accepting_def)
  obtain b0 b1 where z: "bytes_of_u16 (word_of_int addr) = [b0, b1]"
    by (simp add: bytes_of_u16_def)
  obtain x :: "u8 list" and s1 where
    setz: "DwSetZ s0 (word_of_int addr) = Returned () s1" "pipe s1 = push (pipe s0) x" "length x = 10"
    using s0(2)
    by (simp add: DwSetZ_def z DwSetRegs_def DwSetReg_def on_pipe_def DwIn_def DwInst_def
        DwSend_push push_push s0(1))
  obtain y :: "u8 list" where
    pre: "and_then (DwSetPC (pipe s1) 0)
            (\<lambda>_ p1. and_then (DwSetBP p1 (word_of_int (2 * len)))
               (\<lambda>_ p2. DwSend p2 [0x66, 0xC2, 0x00, 0x20])) = Returned () (push (pipe s0) y)"
      "length y = 20"
    using s0(2) setz(3)
    by (simp add: setz(2) DwSetPC_def DwSetBP_def DwSend_push push_push s0(1))
  have ok: "buffer_ok (push (pipe s0) y)" "accepting (link (push (pipe s0) y))"
    using push_ok(1) [OF s0(1), of y] s0(2,3) pre(2) by simp_all
  obtain r p4 where rcv: "DwReceive (push (pipe s0) y) buf len = Returned r p4"
      "accepting (link p4)" "buffer_ok p4" "OutBufLength p4 = 0"
    using DwReceive_accepting [OF ok(2,1) assms(2)] by blast
  define K where "K = (\<lambda>p3. and_then (DwReceive p3 buf len)
                              (\<lambda>(status, buf') p4. Returned buf' p4))"
  have "and_then (DwSetPC (pipe s1) 0)
          (\<lambda>_ p1. and_then (DwSetBP p1 (word_of_int (2 * len)))
             (\<lambda>_ p2. and_then (DwSend p2 [0x66, 0xC2, 0x00, 0x20]) (\<lambda>_ p3. K p3)))
        = and_then (and_then (DwSetPC (pipe s1) 0)
            (\<lambda>_ p1. and_then (DwSetBP p1 (word_of_int (2 * len)))
               (\<lambda>_ p2. DwSend p2 [0x66, 0xC2, 0x00, 0x20]))) (\<lambda>_ p3. K p3)"
    by (simp add: and_then_assoc)
  also have "\<dots> = Returned (snd r) p4"
    unfolding pre(1) using rcv(1) by (simp add: K_def split: prod.splits)
  finally have "DwUnsafeReadAddr s addr len buf = Returned (snd r) (s1\<lparr>pipe := p4\<rparr>)"
    by (simp add: DwUnsafeReadAddr_def s0_def [symmetric] setz(1) on_pipe_def K_def)
  then show ?thesis
    using rcv by (simp add: ready_def)
qed

lemma unsafe_read_into_returns:
  assumes "ready s" "len \<le> 128"
  shows "\<exists>buf1 s1. unsafe_read_into s addr len buf off = Returned buf1 s1 \<and> ready s1
           \<and> unsafe_reads (events s1) = unsafe_reads (events s) @ [(addr, len)]"
proof -
  obtain new s1 where
    r: "DwUnsafeReadAddr s addr len (take (nat len) (drop off buf)) = Returned new s1" "ready s1"
    using DwUnsafeReadAddr_returns [OF assms] by blast
  then have "unsafe_read_into s addr len buf off = Returned (write_at buf off new) s1"
    by (simp add: unsafe_read_into_def)
  then show ?thesis
    using r(2) unsafe_read_into_reads [of s addr len buf off] by simp
qed

lemma DwReadAddr_short_run:
  assumes "ready s" "32 < DWDRaddr s" "DWDRaddr s \<le> 160"
    and "DWDRaddr s + 1 < len" "len \<le> DWDRaddr s + 129"
  shows "\<exists>buf' s'. DwReadAddr s 0 len buf = Returned buf' s'
           \<and> unsafe_reads (events s') = unsafe_reads (events s)
                @ [(0, 28), (32, DWDRaddr s - 32), (DWDRaddr s + 1, len - DWDRaddr s - 1)]"
proof -
  define D where "D = DWDRaddr s"
  obtain buf1 s1 where r1: "unsafe_read_into s 0 28 buf 0 = Returned buf1 s1" "ready s1"
      "unsafe_reads (events s1) = unsafe_reads (events s) @ [(0, 28)]"
    using unsafe_read_into_returns [OF assms(1), of 28 0 buf 0] by auto
  define buf2 where "buf2 = buf1[28 := R s ! 28, 29 := R s ! 29, 30 := R s ! 30, 31 := R s ! 31]"
  obtain buf3 s2 where r2: "unsafe_read_into s1 32 (D - 32) buf2 32 = Returned buf3 s2" "ready s2"
      "unsafe_reads (events s2) = unsafe_reads (events s1) @ [(32, D - 32)]"
    using unsafe_read_into_returns [OF r1(2), of "D - 32" 32 buf2 32] assms(3) by (auto simp: D_def)
  define buf4 where "buf4 = buf3[nat D := 0]"
  obtain buf' s' where
    r3: "unsafe_read_into s2 (D + 1) (len - D - 1) buf4 (Suc (nat D)) = Returned buf' s'"
      "unsafe_reads (events s') = unsafe_reads (events s2) @ [(D + 1, len - D - 1)]"
    using unsafe_read_into_returns [OF r2(2), of "len - D - 1" "D + 1" buf4 "Suc (nat D)"] assms(5)
    by (auto simp: D_def)
  have "read_chunks s2 (D + 1) (len - D - 1) buf4 (Suc (nat D)) = Returned buf' s'"
    using assms(4,5) r3(1) by (subst read_chunks.simps) (simp add: D_def)
  then have "DwReadAddr s 0 len buf = Returned buf' s'"
    using DwReadAddr_from_0 [of s len buf] assms(2,4) r1(1) r2(1)
    by (simp add: D_def [symmetric] buf2_def [symmetric] buf4_def [symmetric] Let_def)
  then show ?thesis
    using r1(3) r2(3) r3(2) by (simp add: D_def)
qed

lemma example_session_ready: "ready example_session"
  using example_session_ok(1,2)
  by (simp add: ready_def accepting_def) (simp add: example_session_def startup_def willing_adapter_def)

subsection \<open>The hazard skip\<close>

text \<open>
  Claim C3. Let DWDR lie above the register file (\<open>32 \<le> DWDRaddr\<close>) and let
  \<^verbatim>\<open>DwReadAddr(0, len, buf)\<close> span it (\<open>DWDRaddr < len\<close>), \<open>buf\<close> having \<open>len\<close> bytes.
  Whether the call returns or fails, it makes at least one call of
  \<^verbatim>\<open>DwUnsafeReadAddr\<close>, each of them for a positive length and a range
  \<open>[addr, addr + len)\<close> that holds none of 28, 29, 30, 31 and \<open>DWDRaddr\<close>. When it
  returns, the buffer has its length, positions 28 to 31 hold the shadow registers
  \<open>R[28..31]\<close> as they were at the call, position \<open>DWDRaddr\<close> holds 0, whatever the
  adapter delivered, and the shadow registers are unchanged.
\<close>

theorem DwReadAddr_hazard_skip:
  assumes "32 \<le> DWDRaddr s" and "DWDRaddr s < len" and "length buf = nat len"
  shows "(\<exists>rs. unsafe_reads (events (final (DwReadAddr s 0 len buf))) = unsafe_reads (events s) @ rs
            \<and> rs \<noteq> []
            \<and> (\<forall>r\<in>set rs. 0 < snd r \<and> (\<forall>h\<in>hazards s. \<not> touches r h)))
       \<and> (\<forall>buf' s'. DwReadAddr s 0 len buf = Returned buf' s' \<longrightarrow>
             length buf' = length buf
             \<and> buf' ! 28 = R s ! 28 \<and> buf' ! 29 = R s ! 29
             \<and> buf' ! 30 = R s ! 30 \<and> buf' ! 31 = R s ! 31
             \<and> buf' ! nat (DWDRaddr s) = 0 \<and> R s' = R s)"
proof -
  define D where "D = DWDRaddr s"
  define safe :: "(int \<times> int) \<Rightarrow> bool" where
    "safe r \<longleftrightarrow> 0 < snd r \<and> (\<forall>h\<in>hazards s. \<not> touches r h)" for r
  define good :: "(u8 list, session) outcome \<Rightarrow> bool" where
    "good res \<longleftrightarrow>
       (\<exists>rs. unsafe_reads (events (final res)) = unsafe_reads (events s) @ rs
          \<and> rs \<noteq> [] \<and> (\<forall>r\<in>set rs. safe r))
       \<and> (\<forall>buf' s'. res = Returned buf' s' \<longrightarrow>
             length buf' = length buf
             \<and> buf' ! 28 = R s ! 28 \<and> buf' ! 29 = R s ! 29
             \<and> buf' ! 30 = R s ! 30 \<and> buf' ! 31 = R s ! 31
             \<and> buf' ! nat D = 0 \<and> R s' = R s)" for res
  have D: "32 \<le> D" "D < len" "nat D < length buf" "32 < length buf"
    using assms by (simp_all add: D_def)
  have safe_first: "safe (0, 28)"
    using D(1) by (simp add: safe_def hazards_def touches_def D_def)
  have safe_second: "safe (32, D - 32)" if "32 < D"
    using that by (simp add: safe_def hazards_def touches_def D_def)
  have safe_beyond: "safe r" if "D + 1 \<le> fst r" "0 < snd r" for r
    using that D(1) by (simp add: safe_def hazards_def touches_def D_def)
  have failed: "good (Failed e s')"
    if "unsafe_reads (events s') = unsafe_reads (events s) @ rs" "rs \<noteq> []" "\<forall>r\<in>set rs. safe r"
    for e s' rs
    using that unfolding good_def by (intro conjI exI [of _ rs]) simp_all
  have tail: "good (read_chunks s2 (D + 1) (len - D - 1) (buf3[nat D := 0]) (Suc (nat D)))"
    if regs: "same_registers s s2"
      and reads: "unsafe_reads (events s2) = unsafe_reads (events s) @ pre" "pre \<noteq> []" "\<forall>r\<in>set pre. safe r"
      and buf3: "length buf3 = length buf" "buf3 ! 28 = R s ! 28" "buf3 ! 29 = R s ! 29"
        "buf3 ! 30 = R s ! 30" "buf3 ! 31 = R s ! 31"
    for s2 buf3 pre
  proof -
    let ?res = "read_chunks s2 (D + 1) (len - D - 1) (buf3[nat D := 0]) (Suc (nat D))"
    note props = read_chunks_props [of s2 "D + 1" "len - D - 1" "buf3[nat D := 0]" "Suc (nat D)"]
    from props obtain rs where
      rs: "unsafe_reads (events (final ?res)) = unsafe_reads (events s2) @ rs"
        "\<forall>r\<in>set rs. D + 1 \<le> fst r \<and> 0 < snd r"
      by blast
    have 1: "unsafe_reads (events (final ?res)) = unsafe_reads (events s) @ (pre @ rs)"
      using rs(1) reads(1) by simp
    have 2: "\<forall>r\<in>set (pre @ rs). safe r"
      using reads(3) rs(2) safe_beyond by auto
    have 3: "length buf' = length buf
             \<and> buf' ! 28 = R s ! 28 \<and> buf' ! 29 = R s ! 29
             \<and> buf' ! 30 = R s ! 30 \<and> buf' ! 31 = R s ! 31
             \<and> buf' ! nat D = 0 \<and> R s' = R s"
      if run: "?res = Returned buf' s'" for buf' s'
    proof -
      have fit: "Suc (nat D) + nat (len - D - 1) \<le> length (buf3[nat D := 0])"
        using D assms(3) buf3(1) by simp
      have keep: "length buf' = length (buf3[nat D := 0])"
        "\<And>i. i < Suc (nat D) \<Longrightarrow> buf' ! i = buf3[nat D := 0] ! i"
        using props run fit by blast+
      have "same_registers s2 s'"
        using props run by simp
      then have "R s' = R s"
        using regs same_registers_fields(1) by metis
      moreover have "buf' ! nat D = 0"
        using keep(2) [of "nat D"] D(3) buf3(1) by simp
      moreover have "buf' ! i = buf3 ! i" if "i < 32" for i
        using keep(2) [of i] that D(1) by simp
      ultimately show ?thesis
        using keep(1) buf3 by simp
    qed
    show ?thesis
      unfolding good_def using 1 2 3 reads(2) by (intro conjI exI [of _ "pre @ rs"]) blast+
  qed
  have "good (DwReadAddr s 0 len buf)"
  proof (cases "unsafe_read_into s 0 28 buf 0")
    case (Failed e s1)
    have "unsafe_reads (events s1) = unsafe_reads (events s) @ [(0, 28)]"
      using unsafe_read_into_reads [of s 0 28 buf 0] Failed by simp
    then have "good (Failed e s1)"
      using safe_first by (intro failed [where rs = "[(0, 28)]"]) simp_all
    then show ?thesis
      using DwReadAddr_from_0 [OF assms(1,2), of buf] Failed by simp
  next
    case (Returned buf1 s1)
    define buf2 where "buf2 = buf1[28 := R s ! 28, 29 := R s ! 29, 30 := R s ! 30, 31 := R s ! 31]"
    have regs1: "same_registers s s1"
      using unsafe_read_into_same_registers [of s 0 28 buf 0] Returned by simp
    have reads1: "unsafe_reads (events s1) = unsafe_reads (events s) @ [(0, 28)]"
      using unsafe_read_into_reads [of s 0 28 buf 0] Returned by simp
    have len1: "length buf1 = length buf"
      using unsafe_read_into_buffer(1) [OF Returned] D(4) by simp
    have b2: "length buf2 = length buf" "buf2 ! 28 = R s ! 28" "buf2 ! 29 = R s ! 29"
        "buf2 ! 30 = R s ! 30" "buf2 ! 31 = R s ! 31"
      using len1 D(4) by (simp_all add: buf2_def)
    show ?thesis
    proof (cases "32 < D")
      case False
      then have d: "D = 32"
        using D(1) by simp
      have "good (read_chunks s1 (D + 1) (len - D - 1) (buf2[nat D := 0]) (Suc (nat D)))"
        using regs1 reads1 safe_first b2 by (intro tail [where pre = "[(0, 28)]"]) simp_all
      then show ?thesis
        using DwReadAddr_from_0 [OF assms(1,2), of buf] Returned d
        by (simp add: D_def [symmetric] buf2_def [symmetric] Let_def)
    next
      case True
      show ?thesis
      proof (cases "unsafe_read_into s1 32 (D - 32) buf2 32")
        case (Failed e s2)
        have "unsafe_reads (events s2) = unsafe_reads (events s) @ [(0, 28), (32, D - 32)]"
          using unsafe_read_into_reads [of s1 32 "D - 32" buf2 32] Failed reads1 by simp
        then have "good (Failed e s2)"
          using safe_first safe_second [OF True]
          by (intro failed [where rs = "[(0, 28), (32, D - 32)]"]) simp_all
        then show ?thesis
          using DwReadAddr_from_0 [OF assms(1,2), of buf] Returned Failed True
          by (simp add: D_def [symmetric] buf2_def [symmetric] Let_def)
      next
        case r2: (Returned buf3 s2)
        have regs2: "same_registers s s2"
          using unsafe_read_into_same_registers [of s1 32 "D - 32" buf2 32] r2 regs1
          by (auto intro: same_registers_trans)
        have reads2: "unsafe_reads (events s2) = unsafe_reads (events s) @ [(0, 28), (32, D - 32)]"
          using unsafe_read_into_reads [of s1 32 "D - 32" buf2 32] r2 reads1 by simp
        have fit: "32 + nat (D - 32) \<le> length buf2"
          using D b2(1) by simp
        have b3: "length buf3 = length buf2" "\<And>i. i < 32 \<Longrightarrow> buf3 ! i = buf2 ! i"
          using unsafe_read_into_buffer [OF r2 _ fit] True by simp_all
        have "good (read_chunks s2 (D + 1) (len - D - 1) (buf3[nat D := 0]) (Suc (nat D)))"
          using regs2 reads2 safe_first safe_second [OF True] b2 b3
          by (intro tail [where pre = "[(0, 28), (32, D - 32)]"]) simp_all
        then show ?thesis
          using DwReadAddr_from_0 [OF assms(1,2), of buf] Returned r2 True
          by (simp add: D_def [symmetric] buf2_def [symmetric] Let_def)
      qed
    qed
  qed
  then show ?thesis
    unfolding good_def safe_def D_def .
qed

text \<open>
  In the example session DWDR is at data address 0x42. Reading 100 bytes from address 0
  returns; the bulk reads are \<open>[0, 28)\<close>, \<open>[32, 66)\<close> and \<open>[67, 100)\<close>.
\<close>

theorem DwReadAddr_hazard_skip_witness:
  "32 \<le> DWDRaddr example_session \<and> DWDRaddr example_session < 100
   \<and> length (replicate 100 (0xEE :: u8)) = nat 100
   \<and> (\<exists>buf' s'. DwReadAddr example_session 0 100 (replicate 100 0xEE) = Returned buf' s'
         \<and> unsafe_reads (events s') = [(0, 28), (32, 34), (67, 33)]
         \<and> length buf' = 100
         \<and> buf' ! 28 = 28 \<and> buf' ! 29 = 29 \<and> buf' ! 30 = 30 \<and> buf' ! 31 = 31
         \<and> buf' ! 66 = 0)"
proof -
  have d: "DWDRaddr example_session = 66" "events example_session = []"
    by (simp_all add: example_session_def events_def startup_def willing_adapter_def)
  have regs: "R example_session ! 28 = 28" "R example_session ! 29 = 29"
    "R example_session ! 30 = 30" "R example_session ! 31 = 31"
    by (simp_all add: example_session_def)
  obtain buf' s' where
    run: "DwReadAddr example_session 0 100 (replicate 100 0xEE) = Returned buf' s'"
      "unsafe_reads (events s') = [(0, 28), (32, 34), (67, 33)]"
    using DwReadAddr_short_run [OF example_session_ready, of 100 "replicate 100 0xEE"]
    by (auto simp: d)
  have "length buf' = 100 \<and> buf' ! 28 = 28 \<and> buf' ! 29 = 29 \<and> buf' ! 30 = 30 \<and> buf' ! 31 = 31
          \<and> buf' ! 66 = 0"
    using DwReadAddr_hazard_skip [of example_session 100 "replicate 100 0xEE"] run(1)
    by (simp add: d regs)
  then show ?thesis
    using run by (simp add: d)
qed

end
